theory Spec2Isabelle
  imports Main
begin

section \<open>Values, errors and strings\<close>

text \<open>
  A response body is whatever axios parsed from the upstream reply. Only its JavaScript
  truthiness is ever inspected by the service (\<open>if (cachedData)\<close>, \<open>if (!result)\<close>).
\<close>

datatype json = JNull | JBool bool | JNum int | JStr string | JObj "(string \<times> json) list"

fun truthy :: "json \<Rightarrow> bool" where
  "truthy JNull = False"
| "truthy (JBool b) = b"
| "truthy (JNum n) = (n \<noteq> 0)"
| "truthy (JStr s) = (s \<noteq> [])"
| "truthy (JObj fs) = True"

text \<open>
  The three shapes of a thrown value that the route's error handler tells apart:
  an axios error carrying \<open>error.response\<close>, an axios error carrying only
  \<open>error.request\<close>, and a plain \<open>Error(message)\<close>.
\<close>

datatype error =
    HttpError nat json
  | NetworkError string
  | PlainError string

text \<open>\<open>String.prototype.includes\<close>: the needle occurs as a contiguous run.\<close>

fun includesStr :: "string \<Rightarrow> string \<Rightarrow> bool" where
  "includesStr [] sub = (sub = [])"
| "includesStr (c # cs) sub = (take (length sub) (c # cs) = sub \<or> includesStr cs sub)"

text \<open>\<open>Array.prototype.join\<close>.\<close>

fun join :: "string \<Rightarrow> string list \<Rightarrow> string" where
  "join sep [] = []"
| "join sep [x] = x"
| "join sep (x # y # ys) = x @ sep @ join sep (y # ys)"

text \<open>The decimal text of an integer, as a template literal prints it.\<close>

fun decimal :: "nat \<Rightarrow> string" where
  "decimal n =
     (if n < 10 then [''0123456789'' ! n] else decimal (n div 10) @ [''0123456789'' ! (n mod 10)])"

declare decimal.simps [simp del]

definition showInt :: "int \<Rightarrow> string" where
  "showInt i = (if i < 0 then ''-'' @ decimal (nat (- i)) else decimal (nat i))"

fun message :: "error \<Rightarrow> string" where
  "message (HttpError st d) = ''Request failed with status code '' @ decimal st"
| "message (NetworkError m) = m"
| "message (PlainError m) = m"

text \<open>Messages of the source, as the UTF-8 bytes of the literals.\<close>

definition msg_allKeysLimited :: string where
  "msg_allKeysLimited =
     [CHR 0xE6, CHR 0x89, CHR 0x80, CHR 0xE6, CHR 0x9C, CHR 0x89] @ ''API'' @
     [CHR 0xE5, CHR 0xAF, CHR 0x86, CHR 0xE9, CHR 0x92, CHR 0xA5, CHR 0xE9, CHR 0x83, CHR 0xBD,
      CHR 0xE5, CHR 0xB7, CHR 0xB2, CHR 0xE8, CHR 0xBE, CHR 0xBE, CHR 0xE5, CHR 0x88, CHR 0xB0,
      CHR 0xE4, CHR 0xBD, CHR 0xBF, CHR 0xE7, CHR 0x94, CHR 0xA8, CHR 0xE9, CHR 0x99, CHR 0x90,
      CHR 0xE5, CHR 0x88, CHR 0xB6, CHR 0xE6, CHR 0x88, CHR 0x96, CHR 0xE9, CHR 0x94, CHR 0x99,
      CHR 0xE8, CHR 0xAF, CHR 0xAF, CHR 0xE6, CHR 0xAC, CHR 0xA1, CHR 0xE6, CHR 0x95, CHR 0xB0,
      CHR 0xE9, CHR 0x99, CHR 0x90, CHR 0xE5, CHR 0x88, CHR 0xB6]"

definition msg_redisUnavailable :: string where
  "msg_redisUnavailable =
     ''Redis'' @
     [CHR 0xE8, CHR 0xBF, CHR 0x9E, CHR 0xE6, CHR 0x8E, CHR 0xA5, CHR 0xE4, CHR 0xB8, CHR 0x8D,
      CHR 0xE5, CHR 0x8F, CHR 0xAF, CHR 0xE7, CHR 0x94, CHR 0xA8, CHR 0xEF, CHR 0xBC, CHR 0x8C,
      CHR 0xE6, CHR 0x97, CHR 0xA0, CHR 0xE6, CHR 0xB3, CHR 0x95, CHR 0xE8, CHR 0x8E, CHR 0xB7,
      CHR 0xE5, CHR 0x8F, CHR 0x96] @ ''API'' @
     [CHR 0xE5, CHR 0xAF, CHR 0x86, CHR 0xE9, CHR 0x92, CHR 0xA5]"

definition kw_limit :: string where
  "kw_limit = [CHR 0xE9, CHR 0x99, CHR 0x90, CHR 0xE5, CHR 0x88, CHR 0xB6]"

definition msg_invalidAppid :: string where
  "msg_invalidAppid =
     [CHR 0xE6, CHR 0x97, CHR 0xA0, CHR 0xE6, CHR 0x95, CHR 0x88, CHR 0xE7, CHR 0x9A, CHR 0x84] @
     ''appid'' @ [CHR 0xE5, CHR 0x8F, CHR 0x82, CHR 0xE6, CHR 0x95, CHR 0xB0]"

definition msg_missingAppIdKey :: string where
  "msg_missingAppIdKey =
     [CHR 0xE6, CHR 0x9C, CHR 0x8D, CHR 0xE5, CHR 0x8A, CHR 0xA1, CHR 0xE5, CHR 0x99, CHR 0xA8,
      CHR 0xE9, CHR 0x85, CHR 0x8D, CHR 0xE7, CHR 0xBD, CHR 0xAE, CHR 0xE9, CHR 0x94, CHR 0x99,
      CHR 0xE8, CHR 0xAF, CHR 0xAF, CHR 0xEF, CHR 0xBC, CHR 0x9A, CHR 0xE7, CHR 0xBC, CHR 0xBA,
      CHR 0xE5, CHR 0xB0, CHR 0x91] @ ''APP_ID_KEY'' @
     [CHR 0xE7, CHR 0x8E, CHR 0xAF, CHR 0xE5, CHR 0xA2, CHR 0x83, CHR 0xE5, CHR 0x8F, CHR 0x98,
      CHR 0xE9, CHR 0x87, CHR 0x8F]"

definition msg_noData :: string where
  "msg_noData =
     [CHR 0xE6, CHR 0x97, CHR 0xA0, CHR 0xE6, CHR 0xB3, CHR 0x95, CHR 0xE8, CHR 0x8E, CHR 0xB7,
      CHR 0xE5, CHR 0x8F, CHR 0x96, CHR 0xE5, CHR 0xA4, CHR 0xA9, CHR 0xE6, CHR 0xB0, CHR 0x94,
      CHR 0xE6, CHR 0x95, CHR 0xB0, CHR 0xE6, CHR 0x8D, CHR 0xAE]"


section \<open>Dates: \<open>Date.prototype.toISOString\<close> and the DayKey\<close>

text \<open>
  A time value is the number of milliseconds since the epoch, as \<open>Date.now()\<close> returns it.
  \<open>toISOString\<close> prints the UTC fields of the time value. The civil date of a day number
  is computed with the usual era/day-of-era arithmetic on the proleptic Gregorian calendar:
  eras of 400 years (146097 days) starting on 1 March, the year of the era (the day of the
  era less one day per four years passed, plus one per century, divided by 365), the day
  of that March-based year, the March-based month index, and the day of the month.
\<close>

definition msPerDay :: int where
  "msPerDay = 86400000"

definition Day :: "int \<Rightarrow> int" where
  "Day t = t div msPerDay"

definition leapAdjusted :: "int \<Rightarrow> int" where
  "leapAdjusted doe = doe - doe div 1460 + doe div 36524 - doe div 146096"

definition yearOfEra :: "int \<Rightarrow> int" where
  "yearOfEra doe = leapAdjusted doe div 365"

definition daysBeforeYear :: "int \<Rightarrow> int" where
  "daysBeforeYear yoe = 365 * yoe + yoe div 4 - yoe div 100"

definition dayOfYear :: "int \<Rightarrow> int" where
  "dayOfYear doe = doe - daysBeforeYear (yearOfEra doe)"

definition monthIndex :: "int \<Rightarrow> int" where
  "monthIndex doy = (5 * doy + 2) div 153"

definition dayOfMonth :: "int \<Rightarrow> int" where
  "dayOfMonth doy = doy - (153 * monthIndex doy + 2) div 5 + 1"

definition monthOf :: "int \<Rightarrow> int" where
  "monthOf doy = (if monthIndex doy < 10 then monthIndex doy + 3 else monthIndex doy - 9)"

definition civilFromDays :: "int \<Rightarrow> int \<times> int \<times> int" where
  "civilFromDays z =
     (yearOfEra ((z + 719468) mod 146097) + ((z + 719468) div 146097) * 400 +
        (if monthOf (dayOfYear ((z + 719468) mod 146097)) \<le> 2 then 1 else 0),
      monthOf (dayOfYear ((z + 719468) mod 146097)),
      dayOfMonth (dayOfYear ((z + 719468) mod 146097)))"

definition digitChar :: "int \<Rightarrow> char" where
  "digitChar n = ''0123456789'' ! nat (n mod 10)"

definition pad2 :: "int \<Rightarrow> string" where
  "pad2 n = [digitChar (n div 10), digitChar n]"

definition pad3 :: "int \<Rightarrow> string" where
  "pad3 n = [digitChar (n div 100), digitChar (n div 10), digitChar n]"

definition pad4 :: "int \<Rightarrow> string" where
  "pad4 n = [digitChar (n div 1000), digitChar (n div 100), digitChar (n div 10), digitChar n]"

definition pad6 :: "int \<Rightarrow> string" where
  "pad6 n = [digitChar (n div 100000), digitChar (n div 10000), digitChar (n div 1000),
             digitChar (n div 100), digitChar (n div 10), digitChar n]"

definition isoYear :: "int \<Rightarrow> string" where
  "isoYear y =
     (if 0 \<le> y \<and> y \<le> 9999 then pad4 y
      else if y < 0 then ''-'' @ pad6 (- y)
      else ''+'' @ pad6 y)"

definition isoDate :: "int \<Rightarrow> string" where
  "isoDate dayNo =
     (case civilFromDays dayNo of
        (y, m, d) \<Rightarrow> isoYear y @ ''-'' @ pad2 m @ ''-'' @ pad2 d)"

definition isoTime :: "int \<Rightarrow> string" where
  "isoTime t =
     pad2 (t mod msPerDay div 3600000) @ '':'' @ pad2 (t mod msPerDay div 60000 mod 60) @ '':'' @
     pad2 (t mod msPerDay div 1000 mod 60) @ ''.'' @ pad3 (t mod msPerDay mod 1000)"

definition toISOString :: "int \<Rightarrow> string" where
  "toISOString t = isoDate (Day t) @ ''T'' @ isoTime t @ ''Z''"

text \<open>\<open>getTodayString\<close>: \<open>now.toISOString().split('T')[0]\<close>.\<close>

definition getTodayString :: "int \<Rightarrow> string" where
  "getTodayString now = takeWhile (\<lambda>c. c \<noteq> CHR ''T'') (toISOString now)"

text \<open>
  The calendar date in the server's local time zone, which is what the specification says
  the DayKey is: the date of the time value shifted by the zone's offset from UTC
  (in minutes, positive east of Greenwich).
\<close>

definition localDayKey :: "int \<Rightarrow> int \<Rightarrow> string" where
  "localDayKey offsetMinutes now = isoDate (Day (now + offsetMinutes * 60000))"

text \<open>
  The time values from 1970-01-01T00:00:00.000Z to 9999-12-31T23:59:59.999Z, for which
  \<open>toISOString\<close> writes the year with four digits.
\<close>

definition fourDigitYear :: "int \<Rightarrow> bool" where
  "fourDigitYear t = (0 \<le> t \<and> t < 253402300800000)"


section \<open>Credentials and the ledger\<close>

text \<open>
  \<open>loadApiKeys\<close> builds one entry per configured secret: \<open>id\<close> (here \<open>key_id\<close>),
  the secret \<open>key\<close> and \<open>priority\<close>, the position in the configuration.
  \<open>getAllAvailableKeys\<close> returns copies extended with the counters it read.
\<close>

record keyInfo =
  key_id :: string
  key :: string
  priority :: nat

record availableKey = keyInfo +
  currentUsage :: int
  currentErrors :: int

definition usageKey :: "string \<Rightarrow> string \<Rightarrow> string" where
  "usageKey keyId today = ''usage:'' @ keyId @ '':'' @ today"

definition errorKey :: "string \<Rightarrow> string \<Rightarrow> string" where
  "errorKey keyId today = ''errors:'' @ keyId @ '':'' @ today"

definition timeKey :: "string \<Rightarrow> string \<Rightarrow> string" where
  "timeKey keyId today = ''times:'' @ keyId @ '':'' @ today"

text \<open>
  What the process does to its surroundings, in order. The position of an event in the
  trace is the instant at which the surroundings answer.
\<close>

datatype event =
    RedisGet string
  | RedisIncr string
  | RedisExpire string int
  | RedisLpush string int
  | HttpGet string
  | Sleep int

text \<open>
  The surroundings and the configuration. The answers of the surroundings are indexed by
  the instant (the number of events so far): whether \<open>redisConnected\<close> is set, whether
  the Redis command issued then fails, what the upstream answers to a URL, and what
  \<open>Date.now()\<close> returns.
\<close>

record env =
  keys :: "keyInfo list"
  dailyLimit :: int
  retryCount :: int
  retryDelay :: int
  cacheEnabled :: bool
  stdTTL :: int
  maxKeys :: int
  initError :: "error option"
  expectedAppId :: "string option"
  redisConnected :: "nat \<Rightarrow> bool"
  redisFails :: "nat \<Rightarrow> bool"
  httpReply :: "nat \<Rightarrow> string \<Rightarrow> error + json"
  dateNow :: "nat \<Rightarrow> int"

record stats =
  totalRequests :: nat
  cacheHits :: nat
  cacheWrites :: nat
  apiCalls :: nat
  errors :: nat
  responseTimeSum :: int
  maxResponseTime :: int
  minResponseTime :: "int option"

text \<open>
  The state the process and its Redis hold: the integer counters (every write to them is
  an \<open>INCR\<close>), the lists of timestamps, the time-to-live last set on a key, the entries of
  the result cache (key, body, expiry instant), the statistics, the fingerprints with a
  pending request, and the trace.
\<close>

record world =
  kv :: "string \<rightharpoonup> int"
  lists :: "string \<Rightarrow> int list"
  ttl :: "string \<rightharpoonup> int"
  cache :: "(string \<times> json \<times> int) list"
  stats :: stats
  pendingRequests :: "string list"
  trace :: "event list"

definition tick :: "world \<Rightarrow> nat" where
  "tick w = length (trace w)"

definition emit :: "event \<Rightarrow> world \<Rightarrow> world" where
  "emit e w = w\<lparr>trace := trace w @ [e]\<rparr>"

text \<open>\<open>parseInt(await this.redis.get(k) || 0)\<close>: an absent key counts as 0.\<close>

definition orZero :: "int option \<Rightarrow> int" where
  "orZero v = (case v of None \<Rightarrow> 0 | Some n \<Rightarrow> n)"

definition redisError :: error where
  "redisError = PlainError ''Command timed out''"

text \<open>
  The Redis commands used. Each is one event; it fails when the surroundings say so,
  leaving the store as it was.
\<close>

definition redis_get :: "env \<Rightarrow> string \<Rightarrow> world \<Rightarrow> (error + int option) \<times> world" where
  "redis_get E k w =
     (if redisFails E (tick w) then (Inl redisError, emit (RedisGet k) w)
      else (Inr (kv w k), emit (RedisGet k) w))"

definition redis_incr :: "env \<Rightarrow> string \<Rightarrow> world \<Rightarrow> (error + int) \<times> world" where
  "redis_incr E k w =
     (if redisFails E (tick w) then (Inl redisError, emit (RedisIncr k) w)
      else (Inr (orZero (kv w k) + 1),
            emit (RedisIncr k) (w\<lparr>kv := (kv w)(k \<mapsto> orZero (kv w k) + 1)\<rparr>)))"

definition redis_expire :: "env \<Rightarrow> string \<Rightarrow> int \<Rightarrow> world \<Rightarrow> (error + unit) \<times> world" where
  "redis_expire E k secs w =
     (if redisFails E (tick w) then (Inl redisError, emit (RedisExpire k secs) w)
      else (Inr (), emit (RedisExpire k secs) (w\<lparr>ttl := (ttl w)(k \<mapsto> secs)\<rparr>)))"

definition redis_lpush :: "env \<Rightarrow> string \<Rightarrow> int \<Rightarrow> world \<Rightarrow> (error + unit) \<times> world" where
  "redis_lpush E k v w =
     (if redisFails E (tick w) then (Inl redisError, emit (RedisLpush k v) w)
      else (Inr (), emit (RedisLpush k v) (w\<lparr>lists := (lists w)(k := v # lists w k)\<rparr>)))"

section \<open>The selector: \<open>getAllAvailableKeys\<close>\<close>

text \<open>
  \<open>Array.prototype.sort\<close> with a comparator is stable; for a comparator that is a total
  preorder its result is the stable sorted permutation, which insertion from the right
  computes.
\<close>

fun insertSorted :: "('a \<Rightarrow> 'a \<Rightarrow> int) \<Rightarrow> 'a \<Rightarrow> 'a list \<Rightarrow> 'a list" where
  "insertSorted cmp x [] = [x]"
| "insertSorted cmp x (y # ys) =
     (if cmp x y \<le> 0 then x # y # ys else y # insertSorted cmp x ys)"

definition sortBy :: "('a \<Rightarrow> 'a \<Rightarrow> int) \<Rightarrow> 'a list \<Rightarrow> 'a list" where
  "sortBy cmp xs = foldr (insertSorted cmp) xs []"

text \<open>The comparator of the source: priority first, then the usage read.\<close>

definition compareKeys :: "availableKey \<Rightarrow> availableKey \<Rightarrow> int" where
  "compareKeys a b =
     (if priority a \<noteq> priority b then int (priority a) - int (priority b)
      else currentUsage a - currentUsage b)"

definition withCounters :: "keyInfo \<Rightarrow> int \<Rightarrow> int \<Rightarrow> availableKey" where
  "withCounters k u e = keyInfo.extend k (availableKey.fields u e)"

text \<open>The loop over \<open>this.keys\<close>; a failed read skips the key (the \<open>catch\<close> continues).\<close>

fun collectKeys :: "env \<Rightarrow> string \<Rightarrow> keyInfo list \<Rightarrow> world \<Rightarrow> availableKey list \<times> world" where
  "collectKeys E today [] w = ([], w)"
| "collectKeys E today (k # ks) w =
     (case redis_get E (usageKey (key_id k) today) w of
        (Inl err, w1) \<Rightarrow> collectKeys E today ks w1
      | (Inr rawUsage, w1) \<Rightarrow>
          (case redis_get E (errorKey (key_id k) today) w1 of
             (Inl err, w2) \<Rightarrow> collectKeys E today ks w2
           | (Inr rawErrors, w2) \<Rightarrow>
               (case collectKeys E today ks w2 of
                  (rest, w3) \<Rightarrow>
                    (if orZero rawUsage < dailyLimit E \<and> orZero rawErrors < 3
                     then withCounters k (orZero rawUsage) (orZero rawErrors) # rest
                     else rest, w3))))"

definition getAllAvailableKeys :: "env \<Rightarrow> world \<Rightarrow> (error + availableKey list) \<times> world" where
  "getAllAvailableKeys E w =
     (if \<not> redisConnected E (tick w) then (Inl (PlainError msg_redisUnavailable), w)
      else (case collectKeys E (getTodayString (dateNow E (tick w))) (keys E) w of
              (availableKeys, w') \<Rightarrow> (Inr (sortBy compareKeys availableKeys), w')))"


text \<open>The two orders in question on the returned list.\<close>

definition priorityThenUsage :: "availableKey \<Rightarrow> availableKey \<Rightarrow> bool" where
  "priorityThenUsage a b =
     (priority a < priority b \<or> (priority a = priority b \<and> currentUsage a \<le> currentUsage b))"

definition usageThenPriority :: "availableKey \<Rightarrow> availableKey \<Rightarrow> bool" where
  "usageThenPriority a b =
     (currentUsage a < currentUsage b \<or> (currentUsage a = currentUsage b \<and> priority a \<le> priority b))"

text \<open>A credential appears in the returned list when one of its entries is a copy of it.\<close>

definition appearsIn :: "keyInfo \<Rightarrow> availableKey list \<Rightarrow> bool" where
  "appearsIn c ks = (c \<in> set (map keyInfo.truncate ks))"

text \<open>The counters of a credential for a day, as \<open>getKeyUsage\<close> and \<open>getKeyErrorCount\<close> read them.\<close>

definition usageCounter :: "world \<Rightarrow> string \<Rightarrow> string \<Rightarrow> int" where
  "usageCounter w keyId today = orZero (kv w (usageKey keyId today))"

definition errorCounter :: "world \<Rightarrow> string \<Rightarrow> string \<Rightarrow> int" where
  "errorCounter w keyId today = orZero (kv w (errorKey keyId today))"


section \<open>Recording usage and errors\<close>

text \<open>
  \<open>recordUsage\<close>: nothing is written when \<open>redisConnected\<close> is unset; otherwise the
  commands run in order inside one \<open>try\<close>, and the first that fails ends the function
  (the \<open>catch\<close> logs). The day is read once, on entry.
\<close>

definition recordUsageOn :: "env \<Rightarrow> string \<Rightarrow> string \<Rightarrow> world \<Rightarrow> world" where
  "recordUsageOn E keyId today w =
     (case redis_incr E (usageKey keyId today) w of
        (Inl err, w1) \<Rightarrow> w1
      | (Inr n, w1) \<Rightarrow>
          (case redis_expire E (usageKey keyId today) (48 * 60 * 60) w1 of
             (Inl err, w2) \<Rightarrow> w2
           | (Inr u, w2) \<Rightarrow>
               (case redis_lpush E (timeKey keyId today) (dateNow E (tick w2)) w2 of
                  (Inl err, w3) \<Rightarrow> w3
                | (Inr u', w3) \<Rightarrow> snd (redis_expire E (timeKey keyId today) (48 * 60 * 60) w3))))"

definition recordUsage :: "env \<Rightarrow> string \<Rightarrow> world \<Rightarrow> world" where
  "recordUsage E keyId w =
     (if \<not> redisConnected E (tick w) then w
      else recordUsageOn E keyId (getTodayString (dateNow E (tick w))) w)"

definition recordErrorOn :: "env \<Rightarrow> string \<Rightarrow> string \<Rightarrow> world \<Rightarrow> int option \<times> world" where
  "recordErrorOn E keyId today w =
     (case redis_incr E (errorKey keyId today) w of
        (Inl err, w1) \<Rightarrow> (None, w1)
      | (Inr errorCount, w1) \<Rightarrow>
          (case redis_expire E (errorKey keyId today) (48 * 60 * 60) w1 of
             (Inl err, w2) \<Rightarrow> (None, w2)
           | (Inr u, w2) \<Rightarrow> (Some errorCount, w2)))"

definition recordError :: "env \<Rightarrow> string \<Rightarrow> world \<Rightarrow> int option \<times> world" where
  "recordError E keyId w =
     (if \<not> redisConnected E (tick w) then (None, w)
      else recordErrorOn E keyId (getTodayString (dateNow E (tick w))) w)"


section \<open>The result cache\<close>

text \<open>
  The cache is a node-cache instance, a library outside the repository. Modelled from the
  library's documented behaviour: \<open>get\<close> returns the stored value unless the entry has
  expired (an expired entry is deleted on access); \<open>set\<close> throws when the number of stored
  keys has reached \<open>maxKeys\<close> and otherwise stores the value with expiry
  \<open>now + stdTTL * 1000\<close> (no expiry when \<open>stdTTL\<close> is 0).
\<close>

definition cache_get :: "env \<Rightarrow> string \<Rightarrow> world \<Rightarrow> json option \<times> world" where
  "cache_get E k w =
     (case map_of (cache w) k of
        None \<Rightarrow> (None, w)
      | Some (v, t) \<Rightarrow>
          (if t \<noteq> 0 \<and> t < dateNow E (tick w)
           then (None, w\<lparr>cache := filter (\<lambda>e. fst e \<noteq> k) (cache w)\<rparr>)
           else (Some v, w)))"

definition cacheFull :: error where
  "cacheFull = PlainError ''Cache max keys amount exceeded''"

definition cache_set :: "env \<Rightarrow> string \<Rightarrow> json \<Rightarrow> world \<Rightarrow> (error + unit) \<times> world" where
  "cache_set E k v w =
     (if maxKeys E > - 1 \<and> int (length (cache w)) \<ge> maxKeys E then (Inl cacheFull, w)
      else (Inr (),
            w\<lparr>cache := (k, v, if stdTTL E = 0 then 0 else dateNow E (tick w) + stdTTL E * 1000)
                          # filter (\<lambda>e. fst e \<noteq> k) (cache w)\<rparr>))"


section \<open>Fingerprint and upstream URL\<close>

text \<open>
  The parameters that reach the service. \<open>lat\<close> and \<open>lon\<close> are numbers after validation;
  a number is represented by the text JavaScript prints for it (\<open>String(x)\<close>), which is what
  both the template literal of \<open>generateCacheKey\<close> and \<open>URLSearchParams\<close> use. The optional
  parameters are absent (\<open>None\<close>) or strings. The query of the route has \<open>appid\<close> in
  addition; \<open>const { appid, ...weatherParams } = request.query\<close> is the truncation of the
  extended record. The functions below read the five fields of whatever object they are
  given, so they are defined on every extension of the record.
\<close>

record weatherParams =
  lat :: string
  lon :: string
  exclude :: "string option"
  units :: "string option"
  lang :: "string option"

record query = weatherParams +
  appid :: string

text \<open>\<open>if (params.x) keyParts.push(`label:${params.x}`)\<close>: absent and empty are falsy.\<close>

definition optPart :: "string \<Rightarrow> string option \<Rightarrow> string list" where
  "optPart label v = (case v of None \<Rightarrow> [] | Some s \<Rightarrow> if s = [] then [] else [label @ s])"

definition generateCacheKey :: "'a weatherParams_scheme \<Rightarrow> string" where
  "generateCacheKey params =
     ''weather:'' @
     join '':'' ([''lat:'' @ lat params, ''lon:'' @ lon params] @
                 optPart ''exclude:'' (exclude params) @
                 optPart ''units:'' (units params) @
                 optPart ''lang:'' (lang params))"

text \<open>
  \<open>URLSearchParams.prototype.toString\<close>: the application/x-www-form-urlencoded
  serialisation. Letters, digits and \<open>*-._\<close> stay, a space becomes \<open>+\<close>, every other byte
  becomes \<open>%XX\<close>.
\<close>

definition unreserved :: "char \<Rightarrow> bool" where
  "unreserved c =
     (c \<in> set ''abcdefghijklmnopqrstuvwxyzABCDEFGHIJKLMNOPQRSTUVWXYZ0123456789*-._'')"

definition hexDigit :: "nat \<Rightarrow> char" where
  "hexDigit n = ''0123456789ABCDEF'' ! (n mod 16)"

definition urlEncodeChar :: "char \<Rightarrow> string" where
  "urlEncodeChar c =
     (if unreserved c then [c]
      else if c = CHR '' '' then ''+''
      else [CHR ''%'', hexDigit (of_char c div 16), hexDigit (of_char c)])"

definition urlEncode :: "string \<Rightarrow> string" where
  "urlEncode s = concat (map urlEncodeChar s)"

definition optParam :: "string \<Rightarrow> string option \<Rightarrow> string" where
  "optParam name v =
     (case v of None \<Rightarrow> [] | Some s \<Rightarrow> if s = [] then [] else ''&'' @ name @ ''='' @ urlEncode s)"

definition baseUrl :: string where
  "baseUrl = ''https://api.openweathermap.org/data/3.0/onecall''"

definition buildApiUrl :: "'a weatherParams_scheme \<Rightarrow> string \<Rightarrow> string" where
  "buildApiUrl params apiKey =
     baseUrl @ ''?'' @ ''lat='' @ urlEncode (lat params) @ ''&lon='' @ urlEncode (lon params) @
     ''&appid='' @ urlEncode apiKey @
     optParam ''exclude'' (exclude params) @
     optParam ''units'' (units params) @
     optParam ''lang'' (lang params)"

text \<open>
  What the route's schema lets through: \<open>lat\<close> and \<open>lon\<close> numbers (their printed text is
  not empty and has no colon), \<open>exclude\<close> a comma-separated list of the five section names,
  \<open>units\<close> one of three words, \<open>lang\<close> of 2 to 5 characters.
\<close>

definition numberText :: "string \<Rightarrow> bool" where
  "numberText s = (s \<noteq> [] \<and> CHR '':'' \<notin> set s)"

fun splitOn :: "char \<Rightarrow> string \<Rightarrow> string list" where
  "splitOn sep [] = [[]]"
| "splitOn sep (c # cs) =
     (if c = sep then [] # splitOn sep cs
      else (case splitOn sep cs of [] \<Rightarrow> [[c]] | p # ps \<Rightarrow> (c # p) # ps))"

definition excludeOk :: "string \<Rightarrow> bool" where
  "excludeOk s =
     (\<forall>part \<in> set (splitOn CHR '','' s).
        part \<in> set [''current'', ''minutely'', ''hourly'', ''daily'', ''alerts''])"

definition validated :: "'a weatherParams_scheme \<Rightarrow> bool" where
  "validated p =
     (numberText (lat p) \<and> numberText (lon p) \<and>
      (case exclude p of None \<Rightarrow> True | Some s \<Rightarrow> excludeOk s) \<and>
      (case units p of None \<Rightarrow> True | Some s \<Rightarrow> s \<in> set [''standard'', ''metric'', ''imperial'']) \<and>
      (case lang p of None \<Rightarrow> True | Some s \<Rightarrow> 2 \<le> length s \<and> length s \<le> 5))"



section \<open>The fetch pipeline: \<open>fetchWeatherFromAPI\<close>\<close>

definition httpGet :: "env \<Rightarrow> string \<Rightarrow> world \<Rightarrow> (error + json) \<times> world" where
  "httpGet E url w = (httpReply E (tick w) url, emit (HttpGet url) w)"

definition countApiCall :: "world \<Rightarrow> world" where
  "countApiCall w = w\<lparr>stats := (stats w)\<lparr>apiCalls := apiCalls (stats w) + 1\<rparr>\<rparr>"

definition countCacheWrite :: "world \<Rightarrow> world" where
  "countCacheWrite w = w\<lparr>stats := (stats w)\<lparr>cacheWrites := cacheWrites (stats w) + 1\<rparr>\<rparr>"

text \<open>\<open>if (this.cacheEnabled && this.cache) { this.cache.set(...); this.stats.cacheWrites++ }\<close>\<close>

definition storeResult :: "env \<Rightarrow> string \<Rightarrow> json \<Rightarrow> world \<Rightarrow> (error + unit) \<times> world" where
  "storeResult E cacheKey d w =
     (if cacheEnabled E
      then (case cache_set E cacheKey d w of
              (Inl err, w1) \<Rightarrow> (Inl err, w1)
            | (Inr u, w1) \<Rightarrow> (Inr (), countCacheWrite w1))
      else (Inr (), w))"

text \<open>
  The body of the inner \<open>try\<close> for one credential: the upstream request, then
  \<open>recordUsage\<close>, the call counter, the cache write, and the return of the body.
  Whatever is thrown inside goes to the inner \<open>catch\<close>.
\<close>

definition tryKey ::
  "env \<Rightarrow> 'a weatherParams_scheme \<Rightarrow> string \<Rightarrow> availableKey \<Rightarrow> world \<Rightarrow> (error + json) \<times> world" where
  "tryKey E params cacheKey apiKey w =
     (case httpGet E (buildApiUrl params (key apiKey)) w of
        (Inl err, w1) \<Rightarrow> (Inl err, w1)
      | (Inr d, w1) \<Rightarrow>
          (case storeResult E cacheKey d (countApiCall (recordUsage E (key_id apiKey) w1)) of
             (Inl err, w2) \<Rightarrow> (Inl err, w2)
           | (Inr u, w2) \<Rightarrow> (Inr d, w2)))"

text \<open>
  The loop over the available credentials: the first success returns; a failure sets
  \<open>lastError\<close>, records the error on the credential and moves on.
\<close>

fun tryKeys ::
  "env \<Rightarrow> 'a weatherParams_scheme \<Rightarrow> string \<Rightarrow> availableKey list \<Rightarrow> error option \<Rightarrow> world
     \<Rightarrow> (json option \<times> error option) \<times> world" where
  "tryKeys E params cacheKey [] lastError w = ((None, lastError), w)"
| "tryKeys E params cacheKey (apiKey # rest) lastError w =
     (case tryKey E params cacheKey apiKey w of
        (Inr d, w1) \<Rightarrow> ((Some d, lastError), w1)
      | (Inl err, w1) \<Rightarrow>
          tryKeys E params cacheKey rest (Some err) (snd (recordError E (key_id apiKey) w1)))"

text \<open>
  One pass of the outer loop up to the backoff: the selector (whose failure, and whose
  empty answer, are caught by the outer \<open>catch\<close> and become \<open>lastError\<close>), then the
  credentials.
\<close>

definition attemptOnce ::
  "env \<Rightarrow> 'a weatherParams_scheme \<Rightarrow> string \<Rightarrow> error option \<Rightarrow> world
     \<Rightarrow> (json option \<times> error option) \<times> world" where
  "attemptOnce E params cacheKey lastError w =
     (case getAllAvailableKeys E w of
        (Inl err, w1) \<Rightarrow> ((None, Some err), w1)
      | (Inr availableKeys, w1) \<Rightarrow>
          (if availableKeys = [] then ((None, Some (PlainError msg_allKeysLimited)), w1)
           else tryKeys E params cacheKey availableKeys lastError w1))"

definition sleep :: "int \<Rightarrow> world \<Rightarrow> world" where
  "sleep ms w = emit (Sleep ms) w"

text \<open>
  The outer \<open>for (attempt = 1; attempt <= count; attempt++)\<close> over the attempt numbers
  still to run; after the loop, \<open>throw lastError\<close> (which is \<open>null\<close> when no pass ran).
\<close>

fun attempts ::
  "env \<Rightarrow> 'a weatherParams_scheme \<Rightarrow> string \<Rightarrow> int list \<Rightarrow> error option \<Rightarrow> world
     \<Rightarrow> (error option + json) \<times> world" where
  "attempts E params cacheKey [] lastError w = (Inl lastError, w)"
| "attempts E params cacheKey (attempt # rest) lastError w =
     (case attemptOnce E params cacheKey lastError w of
        ((Some d, lastError'), w1) \<Rightarrow> (Inr d, w1)
      | ((None, lastError'), w1) \<Rightarrow>
          attempts E params cacheKey rest lastError'
            (if attempt < retryCount E then sleep (retryDelay E * attempt) w1 else w1))"

definition fetchWeatherFromAPI ::
  "env \<Rightarrow> 'a weatherParams_scheme \<Rightarrow> string \<Rightarrow> world \<Rightarrow> (error option + json) \<times> world" where
  "fetchWeatherFromAPI E params cacheKey w = attempts E params cacheKey [1..retryCount E] None w"


section \<open>The service entry: \<open>getWeatherData\<close>\<close>

definition updateResponseTime :: "env \<Rightarrow> int \<Rightarrow> world \<Rightarrow> world" where
  "updateResponseTime E startTime w =
     w\<lparr>stats := (stats w)
        \<lparr>responseTimeSum := responseTimeSum (stats w) + (dateNow E (tick w) - startTime),
         maxResponseTime := max (maxResponseTime (stats w)) (dateNow E (tick w) - startTime),
         minResponseTime :=
           Some (case minResponseTime (stats w) of
                   None \<Rightarrow> dateNow E (tick w) - startTime
                 | Some m \<Rightarrow> min m (dateNow E (tick w) - startTime))\<rparr>\<rparr>"

definition countRequest :: "world \<Rightarrow> world" where
  "countRequest w = w\<lparr>stats := (stats w)\<lparr>totalRequests := totalRequests (stats w) + 1\<rparr>\<rparr>"

definition countCacheHit :: "world \<Rightarrow> world" where
  "countCacheHit w = w\<lparr>stats := (stats w)\<lparr>cacheHits := cacheHits (stats w) + 1\<rparr>\<rparr>"

definition countError :: "world \<Rightarrow> world" where
  "countError w = w\<lparr>stats := (stats w)\<lparr>errors := errors (stats w) + 1\<rparr>\<rparr>"

text \<open>\<open>this.cacheEnabled ? this.cache?.get(cacheKey) : null\<close>\<close>

definition cachedData :: "env \<Rightarrow> string \<Rightarrow> world \<Rightarrow> json option \<times> world" where
  "cachedData E cacheKey w = (if cacheEnabled E then cache_get E cacheKey w else (None, w))"

text \<open>
  How one call ends: it returns a body, it throws, or it has found a pending request with
  its fingerprint and awaits that request's promise, whose outcome becomes its own.
\<close>

datatype result = Returns json | Throws "error option" | AwaitsPending string

text \<open>
  The part of \<open>getWeatherData\<close> after the cache lookup has missed: join the pending
  request, or register one, run the fetch, and remove the registration in the
  \<open>finally\<close>.
\<close>

definition onMiss ::
  "env \<Rightarrow> 'a weatherParams_scheme \<Rightarrow> string \<Rightarrow> int \<Rightarrow> world \<Rightarrow> result \<times> world" where
  "onMiss E params cacheKey startTime w =
     (if cacheKey \<in> set (pendingRequests w) then (AwaitsPending cacheKey, w)
      else (case fetchWeatherFromAPI E params cacheKey
                   (w\<lparr>pendingRequests := cacheKey # pendingRequests w\<rparr>) of
              (Inr d, w1) \<Rightarrow>
                (Returns d,
                 (updateResponseTime E startTime w1)
                   \<lparr>pendingRequests := removeAll cacheKey (pendingRequests w1)\<rparr>)
            | (Inl err, w1) \<Rightarrow>
                (Throws err,
                 updateResponseTime E startTime
                   (countError (w1\<lparr>pendingRequests := removeAll cacheKey (pendingRequests w1)\<rparr>)))))"

definition getWeatherData :: "env \<Rightarrow> 'a weatherParams_scheme \<Rightarrow> world \<Rightarrow> result \<times> world" where
  "getWeatherData E params w =
     (case initError E of
        Some err \<Rightarrow>
          (Throws (Some err), updateResponseTime E (dateNow E (tick w)) (countError (countRequest w)))
      | None \<Rightarrow>
          (case cachedData E (generateCacheKey params) (countRequest w) of
             (None, w1) \<Rightarrow> onMiss E params (generateCacheKey params) (dateNow E (tick w)) w1
           | (Some d, w1) \<Rightarrow>
               (if truthy d
                then (Returns d, updateResponseTime E (dateNow E (tick w)) (countCacheHit w1))
                else onMiss E params (generateCacheKey params) (dateNow E (tick w)) w1)))"


section \<open>The route: \<open>GET /onecall\<close>\<close>

text \<open>
  What the handler sends: a status, the headers it set, and the payload. \<open>Unhandled\<close> is
  the handler itself throwing (the \<open>catch\<close> reads \<open>error.message\<close> of a thrown \<open>null\<close>);
  \<open>Deferred\<close> is the handler still awaiting a pending request.
\<close>

datatype response =
    Response nat "(string \<times> string) list" json
  | Unhandled
  | Deferred string

definition errorPayload :: "string \<Rightarrow> int \<Rightarrow> string \<Rightarrow> json" where
  "errorPayload msg now requestId =
     JObj [(''success'', JBool False), (''error'', JStr msg),
           (''timestamp'', JStr (toISOString now)), (''requestId'', JStr requestId)]"

definition failurePayload :: "string \<Rightarrow> int \<Rightarrow> string \<Rightarrow> int \<Rightarrow> json" where
  "failurePayload msg now requestId responseTime =
     JObj [(''success'', JBool False), (''error'', JStr msg),
           (''timestamp'', JStr (toISOString now)), (''requestId'', JStr requestId),
           (''responseTime'', JNum responseTime)]"

text \<open>The \<open>catch\<close> of the handler: the status by the kind of error.\<close>

definition statusOfError :: "error \<Rightarrow> nat" where
  "statusOfError err =
     (case err of
        HttpError st d \<Rightarrow> st
      | NetworkError m \<Rightarrow> 503
      | PlainError m \<Rightarrow> if includesStr m kw_limit \<or> includesStr m ''quota'' then 429 else 500)"

definition onError :: "error option \<Rightarrow> int \<Rightarrow> string \<Rightarrow> int \<Rightarrow> response" where
  "onError thrown now requestId responseTime =
     (case thrown of
        None \<Rightarrow> Unhandled
      | Some (HttpError st d) \<Rightarrow> Response st [] d
      | Some err \<Rightarrow>
          Response (statusOfError err) [] (failurePayload (message err) now requestId responseTime))"

definition onecall :: "env \<Rightarrow> string \<Rightarrow> query \<Rightarrow> world \<Rightarrow> response \<times> world" where
  "onecall E requestId q w =
     (if expectedAppId E = None \<or> expectedAppId E = Some []
      then (Response 500 [] (errorPayload msg_missingAppIdKey (dateNow E (tick w)) requestId), w)
      else if Some (appid q) \<noteq> expectedAppId E
      then (Response 401 [] (errorPayload msg_invalidAppid (dateNow E (tick w)) requestId), w)
      else (case getWeatherData E (weatherParams.truncate q) w of
              (Returns d, w1) \<Rightarrow>
                (if truthy d then (Response 200 [(''X-Response-Time'', showInt (dateNow E (tick w1) - dateNow E (tick w)) @ ''ms'')] d, w1)
                 else (Response 500 [(''X-Response-Time'', showInt (dateNow E (tick w1) - dateNow E (tick w)) @ ''ms'')]
                         (errorPayload msg_noData (dateNow E (tick w1)) requestId), w1))
            | (Throws thrown, w1) \<Rightarrow>
                (onError thrown (dateNow E (tick w1)) requestId
                   (dateNow E (tick w1) - dateNow E (tick w)), w1)
            | (AwaitsPending fp, w1) \<Rightarrow> (Deferred fp, w1)))"

text \<open>
  A retry-after hint in a response: the HTTP header of that name, or the \<open>retryAfter\<close>
  field that the 429 schema of the route file declares.
\<close>

fun payloadFields :: "json \<Rightarrow> string list" where
  "payloadFields (JObj fs) = map fst fs"
| "payloadFields other = []"

fun carriesRetryAfter :: "response \<Rightarrow> bool" where
  "carriesRetryAfter (Response st hs payload) =
     (''Retry-After'' \<in> set (map fst hs) \<or> ''retryAfter'' \<in> set (payloadFields payload))"
| "carriesRetryAfter other = False"

fun statusOf :: "response \<Rightarrow> nat option" where
  "statusOf (Response st hs payload) = Some st"
| "statusOf other = None"



section \<open>Concurrent calls within one process\<close>

text \<open>
  \<open>getWeatherData\<close> is an async function: a call runs without interruption from one of
  its \<open>await\<close>s to the next, and other calls run in between. It is cut here at its
  \<open>await\<close>s. \<open>afterInit\<close> is the part from the return of
  \<open>await this.ensureInitialized()\<close> to the point where the call ends (a cached body, a
  failed initialisation), awaits the pending request
  (\<open>return await this.pendingRequests.get(cacheKey)\<close>), or, having started the fetch and
  registered its promise, awaits that (\<open>await requestPromise\<close>): the cache lookup,
  \<open>pendingRequests.has\<close>, the call of \<open>fetchWeatherFromAPI\<close> and
  \<open>pendingRequests.set\<close> are separated by no \<open>await\<close>. \<open>ownerResumes\<close> and
  \<open>waiterResumes\<close> are the parts that run once the awaited promise has settled: the
  call that started the fetch updates the response time and deletes the registration in
  its \<open>finally\<close>; a call that joined returns the body, or counts the error in the
  \<open>catch\<close>. \<open>getWeatherData\<close> above is \<open>afterInit\<close>, the fetch and
  \<open>ownerResumes\<close> run one after the other (lemma \<open>getWeatherData_cut\<close>).
\<close>

type_synonym outcome = "error option + json"

datatype arrival = Ends result | Starts string

definition joinOrStart :: "string \<Rightarrow> world \<Rightarrow> arrival \<times> world" where
  "joinOrStart cacheKey w =
     (if cacheKey \<in> set (pendingRequests w) then (Ends (AwaitsPending cacheKey), w)
      else (Starts cacheKey, w\<lparr>pendingRequests := cacheKey # pendingRequests w\<rparr>))"

definition afterInit :: "env \<Rightarrow> 'a weatherParams_scheme \<Rightarrow> int \<Rightarrow> world \<Rightarrow> arrival \<times> world" where
  "afterInit E params startTime w =
     (case initError E of
        Some err \<Rightarrow> (Ends (Throws (Some err)), updateResponseTime E startTime (countError w))
      | None \<Rightarrow>
          (case cachedData E (generateCacheKey params) w of
             (None, w1) \<Rightarrow> joinOrStart (generateCacheKey params) w1
           | (Some d, w1) \<Rightarrow>
               (if truthy d
                then (Ends (Returns d), updateResponseTime E startTime (countCacheHit w1))
                else joinOrStart (generateCacheKey params) w1)))"

definition resultOf :: "outcome \<Rightarrow> result" where
  "resultOf out = (case out of Inr d \<Rightarrow> Returns d | Inl err \<Rightarrow> Throws err)"

definition ownerResumes :: "env \<Rightarrow> string \<Rightarrow> int \<Rightarrow> outcome \<Rightarrow> world \<Rightarrow> result \<times> world" where
  "ownerResumes E cacheKey startTime out w =
     (case out of
        Inr d \<Rightarrow>
          (Returns d,
           (updateResponseTime E startTime w)
             \<lparr>pendingRequests := removeAll cacheKey (pendingRequests w)\<rparr>)
      | Inl err \<Rightarrow>
          (Throws err,
           updateResponseTime E startTime
             (countError (w\<lparr>pendingRequests := removeAll cacheKey (pendingRequests w)\<rparr>))))"

definition waiterResumes :: "env \<Rightarrow> int \<Rightarrow> outcome \<Rightarrow> world \<Rightarrow> result \<times> world" where
  "waiterResumes E startTime out w =
     (case out of
        Inr d \<Rightarrow> (Returns d, w)
      | Inl err \<Rightarrow> (Throws err, updateResponseTime E startTime (countError w)))"

text \<open>
  The state of the process: the world (whose \<open>pendingRequests\<close> holds the keys of the
  map), the promise stored in the map under each key, the promises, each with the
  fingerprint it fetches, and the calls. A call has entered and awaits the
  initialisation, awaits the promise of the fetch it started, awaits the promise of a
  fetch it joined, or has finished: alone, as the initiator of a fetch, or as a waiter.
\<close>

datatype promise = InFlight string | Settled string outcome

fun promiseFor :: "promise \<Rightarrow> string" where
  "promiseFor (InFlight fp) = fp"
| "promiseFor (Settled fp out) = fp"

datatype role = Alone | Initiator nat | Waiter nat

datatype call =
    Entered weatherParams int
  | AwaitsOwn nat weatherParams int
  | AwaitsOther nat weatherParams int
  | Finished role weatherParams result

record process =
  shared :: world
  registered :: "string \<rightharpoonup> nat"
  promises :: "nat \<rightharpoonup> promise"
  calls :: "nat \<rightharpoonup> call"

text \<open>
  A step is one uninterrupted run of a call between two \<open>await\<close>s (\<open>enters\<close>,
  \<open>finishes\<close>, \<open>joins\<close>, \<open>starts\<close>, \<open>ownerResumed\<close>, \<open>waiterResumed\<close>),
  the settlement of a fetch (\<open>settles\<close>), or anything else the process does
  (\<open>proceeds\<close>): the commands of the fetches in progress, other routes, the expiry and
  the clearing of the cache. Only \<open>getWeatherData\<close> and \<open>destroy\<close> write
  \<open>pendingRequests\<close>, and the service is not destroyed during a run; so whatever a
  fetch does to the world is a \<open>proceeds\<close> step, and it settles with any outcome. A
  call of \<open>getWeatherData\<close> run to its end with the fetch of the pipeline is such a run
  (lemma \<open>sequential_call\<close>).
\<close>

inductive step :: "env \<Rightarrow> process \<Rightarrow> process \<Rightarrow> bool" for E where
  enters:
    "calls s c = None \<Longrightarrow>
     step E s (s\<lparr>shared := countRequest (shared s),
                 calls := (calls s)(c \<mapsto> Entered params (dateNow E (tick (shared s))))\<rparr>)"
| finishes:
    "calls s c = Some (Entered params st) \<Longrightarrow> afterInit E params st (shared s) = (Ends r, w1) \<Longrightarrow>
     \<forall>fp. r \<noteq> AwaitsPending fp \<Longrightarrow>
     step E s (s\<lparr>shared := w1, calls := (calls s)(c \<mapsto> Finished Alone params r)\<rparr>)"
| joins:
    "calls s c = Some (Entered params st) \<Longrightarrow>
     afterInit E params st (shared s) = (Ends (AwaitsPending fp), w1) \<Longrightarrow>
     registered s fp = Some pr \<Longrightarrow>
     step E s (s\<lparr>shared := w1, calls := (calls s)(c \<mapsto> AwaitsOther pr params st)\<rparr>)"
| starts:
    "calls s c = Some (Entered params st) \<Longrightarrow> afterInit E params st (shared s) = (Starts fp, w1) \<Longrightarrow>
     promises s pr = None \<Longrightarrow>
     step E s (s\<lparr>shared := w1,
                 registered := (registered s)(fp \<mapsto> pr),
                 promises := (promises s)(pr \<mapsto> InFlight fp),
                 calls := (calls s)(c \<mapsto> AwaitsOwn pr params st)\<rparr>)"
| proceeds:
    "pendingRequests w' = pendingRequests (shared s) \<Longrightarrow> step E s (s\<lparr>shared := w'\<rparr>)"
| settles:
    "promises s pr = Some (InFlight fp) \<Longrightarrow>
     step E s (s\<lparr>promises := (promises s)(pr \<mapsto> Settled fp out)\<rparr>)"
| ownerResumed:
    "calls s c = Some (AwaitsOwn pr params st) \<Longrightarrow> promises s pr = Some (Settled fp out) \<Longrightarrow>
     ownerResumes E (generateCacheKey params) st out (shared s) = (r, w1) \<Longrightarrow>
     step E s (s\<lparr>shared := w1,
                 registered := (registered s)(generateCacheKey params := None),
                 calls := (calls s)(c \<mapsto> Finished (Initiator pr) params r)\<rparr>)"
| waiterResumed:
    "calls s c = Some (AwaitsOther pr params st) \<Longrightarrow> promises s pr = Some (Settled fp out) \<Longrightarrow>
     waiterResumes E st out (shared s) = (r, w1) \<Longrightarrow>
     step E s (s\<lparr>shared := w1, calls := (calls s)(c \<mapsto> Finished (Waiter pr) params r)\<rparr>)"

inductive reachable :: "env \<Rightarrow> process \<Rightarrow> bool" for E where
  atStart:
    "pendingRequests w = [] \<Longrightarrow>
     reachable E \<lparr>shared = w, registered = Map.empty, promises = Map.empty, calls = Map.empty\<rparr>"
| afterStep: "reachable E s \<Longrightarrow> step E s s' \<Longrightarrow> reachable E s'"

text \<open>The fetches in flight for a fingerprint, and the call that started a fetch.\<close>

definition inFlight :: "process \<Rightarrow> string \<Rightarrow> nat set" where
  "inFlight s fp = {pr. promises s pr = Some (InFlight fp)}"

definition initiates :: "process \<Rightarrow> nat \<Rightarrow> nat \<Rightarrow> weatherParams \<Rightarrow> bool" where
  "initiates s c pr params =
     ((\<exists>st. calls s c = Some (AwaitsOwn pr params st)) \<or>
      (\<exists>r. calls s c = Some (Finished (Initiator pr) params r)))"


section \<open>Notions used in the statements and proofs\<close>

text \<open>One optional segment of a fingerprint, with its leading colon.\<close>

definition keySegment :: "string \<Rightarrow> string option \<Rightarrow> string" where
  "keySegment label v = concat (map ((@) '':'') (optPart label v))"

definition colonFree :: "string option \<Rightarrow> bool" where
  "colonFree v = (case v of None \<Rightarrow> True | Some s \<Rightarrow> s \<noteq> [] \<and> CHR '':'' \<notin> set s)"

definition present :: "string option \<Rightarrow> bool" where
  "present v = (case v of None \<Rightarrow> True | Some s \<Rightarrow> s \<noteq> [])"

text \<open>The upstream URLs requested and the sleeps taken, in a piece of trace.\<close>

fun httpUrls :: "event list \<Rightarrow> string list" where
  "httpUrls [] = []"
| "httpUrls (HttpGet url # es) = url # httpUrls es"
| "httpUrls (e # es) = httpUrls es"

fun sleepsOf :: "event list \<Rightarrow> int list" where
  "sleepsOf [] = []"
| "sleepsOf (Sleep ms # es) = ms # sleepsOf es"
| "sleepsOf (e # es) = sleepsOf es"

text \<open>The events after the first \<open>n\<close> of a trace.\<close>

definition since :: "world \<Rightarrow> world \<Rightarrow> event list" where
  "since w w' = drop (length (trace w)) (trace w')"

text \<open>
  A read of the ledger entry \<open>k\<close> that fails: the events \<open>evs\<close> are issued from instant
  \<open>n\<close> on, one per instant, and one of them is a \<open>GET\<close> of \<open>k\<close> at an instant at which
  the Redis command throws.
\<close>

fun failedRead :: "env \<Rightarrow> nat \<Rightarrow> event list \<Rightarrow> string \<Rightarrow> bool" where
  "failedRead E n [] k = False"
| "failedRead E n (e # es) k = ((e = RedisGet k \<and> redisFails E n) \<or> failedRead E (Suc n) es k)"

text \<open>The counter reads a selection may issue for the given credentials.\<close>

definition readsOf :: "string \<Rightarrow> keyInfo list \<Rightarrow> event set" where
  "readsOf today ks =
     (\<Union>k \<in> set ks. {RedisGet (usageKey (key_id k) today), RedisGet (errorKey (key_id k) today)})"

text \<open>
  An event of one pass over the credentials: a Redis command, or an upstream request
  for the given parameters with the secret of a configured credential; never a sleep.
\<close>

definition benign :: "env \<Rightarrow> 'a weatherParams_scheme \<Rightarrow> event \<Rightarrow> bool" where
  "benign E params e =
     (case e of
        HttpGet url \<Rightarrow> url \<in> set (map (\<lambda>k. buildApiUrl params (key k)) (keys E))
      | Sleep ms \<Rightarrow> False
      | other \<Rightarrow> True)"

text \<open>
  A later state of the same run: the trace has grown by benign events and no counter of
  the ledger has gone down.
\<close>

definition advances :: "env \<Rightarrow> 'a weatherParams_scheme \<Rightarrow> world \<Rightarrow> world \<Rightarrow> bool" where
  "advances E params w w' =
     ((\<exists>evs. trace w' = trace w @ evs \<and> (\<forall>e \<in> set evs. benign E params e)) \<and>
      (\<forall>k. orZero (kv w k) \<le> orZero (kv w' k)))"







text \<open>
  The state after a series of calls of the service, each under its own surroundings
  (the configuration may be the same throughout; the answers of the surroundings vary).
\<close>

fun afterCalls :: "(env \<times> weatherParams) list \<Rightarrow> world \<Rightarrow> world" where
  "afterCalls [] w = w"
| "afterCalls ((E, params) # rest) w = afterCalls rest (snd (getWeatherData E params w))"

text \<open>
  What holds of the process at every moment: the keys of \<open>pendingRequests\<close> are the
  registered fingerprints; a fetch in flight is the one registered for its fingerprint; a
  registered promise exists and fetches that fingerprint; the call that started a fetch
  finds it registered until it resumes; a promise has exactly one initiator, whose
  fingerprint it fetches; a call that joined awaits a promise that fetches its own
  fingerprint; a call that finished through a promise has that promise's outcome.
\<close>

definition consistent :: "process \<Rightarrow> bool" where
  "consistent s =
     ((\<forall>fp. (fp \<in> set (pendingRequests (shared s))) = (registered s fp \<noteq> None)) \<and>
      (\<forall>pr fp. promises s pr = Some (InFlight fp) \<longrightarrow> registered s fp = Some pr) \<and>
      (\<forall>fp pr. registered s fp = Some pr \<longrightarrow>
         (\<exists>q. promises s pr = Some q \<and> promiseFor q = fp)) \<and>
      (\<forall>c pr params st. calls s c = Some (AwaitsOwn pr params st) \<longrightarrow>
         registered s (generateCacheKey params) = Some pr) \<and>
      (\<forall>c pr params. initiates s c pr params \<longrightarrow>
         (\<exists>q. promises s pr = Some q \<and> promiseFor q = generateCacheKey params)) \<and>
      (\<forall>c c' pr params params'. initiates s c pr params \<longrightarrow> initiates s c' pr params' \<longrightarrow> c = c') \<and>
      (\<forall>pr. promises s pr \<noteq> None \<longrightarrow> (\<exists>c params. initiates s c pr params)) \<and>
      (\<forall>c pr params st. calls s c = Some (AwaitsOther pr params st) \<longrightarrow>
         (\<exists>q. promises s pr = Some q \<and> promiseFor q = generateCacheKey params)) \<and>
      (\<forall>c pr params r. calls s c = Some (Finished (Initiator pr) params r) \<or>
                        calls s c = Some (Finished (Waiter pr) params r) \<longrightarrow>
         (\<exists>out. promises s pr = Some (Settled (generateCacheKey params) out) \<and> r = resultOf out)))"

section \<open>Example configuration and states\<close>

definition demoKey1 :: keyInfo where
  "demoKey1 = \<lparr>key_id = ''key_1'', key = ''secret-one'', priority = 0\<rparr>"

definition demoKey2 :: keyInfo where
  "demoKey2 = \<lparr>key_id = ''key_2'', key = ''secret-two'', priority = 1\<rparr>"

definition demoKeys :: "keyInfo list" where
  "demoKeys = [demoKey1, demoKey2]"

definition demoNow :: int where
  "demoNow = 1704139200000"

definition demoBody :: json where
  "demoBody = JObj [(''timezone'', JStr ''Asia/Shanghai'')]"

definition demoEnv :: env where
  "demoEnv = \<lparr>keys = demoKeys, dailyLimit = 1000, retryCount = 3, retryDelay = 1000,
     cacheEnabled = True, stdTTL = 300, maxKeys = 10000, initError = None,
     expectedAppId = Some ''app-id'', redisConnected = (\<lambda>n. True), redisFails = (\<lambda>n. False),
     httpReply = (\<lambda>n url. Inr demoBody), dateNow = (\<lambda>n. demoNow)\<rparr>"

definition noStats :: stats where
  "noStats = \<lparr>totalRequests = 0, cacheHits = 0, cacheWrites = 0, apiCalls = 0, errors = 0,
     responseTimeSum = 0, maxResponseTime = 0, minResponseTime = None\<rparr>"

definition freshWorld :: world where
  "freshWorld = \<lparr>kv = Map.empty, lists = (\<lambda>k. []), ttl = Map.empty, cache = [],
     stats = noStats, pendingRequests = [], trace = []\<rparr>"

definition demoParams :: weatherParams where
  "demoParams = \<lparr>lat = ''39.9042'', lon = ''116.4074'', exclude = None,
     units = Some ''metric'', lang = Some ''zh_cn''\<rparr>"

definition demoQuery :: query where
  "demoQuery = weatherParams.extend demoParams (query.fields ''app-id'')"

text \<open>The first credential has been used five times today, the second not at all.\<close>

definition skewedWorld :: world where
  "skewedWorld = freshWorld\<lparr>kv := [''usage:key_1:2024-01-01'' \<mapsto> 5]\<rparr>"

text \<open>The first Redis command issued fails; everything else answers.\<close>

definition flakyReadEnv :: env where
  "flakyReadEnv = demoEnv\<lparr>redisFails := (\<lambda>n. n = 0)\<rparr>"

text \<open>The same parameters with another language.\<close>

definition demoParamsEn :: weatherParams where
  "demoParamsEn = demoParams\<lparr>lang := Some ''en''\<rparr>"

text \<open>Redis is never connected.\<close>

definition offlineEnv :: env where
  "offlineEnv = demoEnv\<lparr>redisConnected := (\<lambda>n. False)\<rparr>"


text \<open>Both credentials have three errors today.\<close>

definition blockedWorld :: world where
  "blockedWorld = freshWorld\<lparr>kv := [''errors:key_1:2024-01-01'' \<mapsto> 3,
                                    ''errors:key_2:2024-01-01'' \<mapsto> 3]\<rparr>"

text \<open>The first credential has three errors today, the second none.\<close>

definition halfBlockedWorld :: world where
  "halfBlockedWorld = freshWorld\<lparr>kv := [''errors:key_1:2024-01-01'' \<mapsto> 3]\<rparr>"



text \<open>The example query with two different wrong values of \<open>appid\<close>.\<close>

definition otherQuery :: query where
  "otherQuery = demoQuery\<lparr>appid := ''guess''\<rparr>"

definition thirdQuery :: query where
  "thirdQuery = demoQuery\<lparr>appid := ''another guess''\<rparr>"

text \<open>
  Two calls for the example request: the first has started the fetch and the second has
  entered; then the second has joined; then the fetch has timed out and both have resumed.
\<close>

definition timedOut :: outcome where
  "timedOut = Inl (Some (NetworkError ''timeout''))"

definition fetchStarted :: process where
  "fetchStarted =
     \<lparr>shared = (countRequest (countRequest freshWorld))
                 \<lparr>pendingRequests := [generateCacheKey demoParams]\<rparr>,
      registered = [generateCacheKey demoParams \<mapsto> 0],
      promises = [0 \<mapsto> InFlight (generateCacheKey demoParams)],
      calls = [0 \<mapsto> AwaitsOwn 0 demoParams demoNow, 1 \<mapsto> Entered demoParams demoNow]\<rparr>"

definition sharedFetch :: process where
  "sharedFetch = fetchStarted\<lparr>calls := [0 \<mapsto> AwaitsOwn 0 demoParams demoNow,
                                        1 \<mapsto> AwaitsOther 0 demoParams demoNow]\<rparr>"

definition sharedFailure :: process where
  "sharedFailure =
     \<lparr>shared = updateResponseTime demoEnv demoNow (countError
                 (updateResponseTime demoEnv demoNow (countError
                    (countRequest (countRequest freshWorld))))),
      registered = Map.empty,
      promises = [0 \<mapsto> Settled (generateCacheKey demoParams) timedOut],
      calls = [0 \<mapsto> Finished (Initiator 0) demoParams (resultOf timedOut),
               1 \<mapsto> Finished (Waiter 0) demoParams (resultOf timedOut)]\<rparr>"


text \<open>
  The upstream answers every request with status 500; both credentials have one error
  today. The state in which the fetch of the example request then begins.
\<close>

definition failingEnv :: env where
  "failingEnv = demoEnv\<lparr>httpReply := (\<lambda>n url. Inl (HttpError 500 (JStr ''upstream down'')))\<rparr>"

definition strainedWorld :: world where
  "strainedWorld = freshWorld\<lparr>kv := [''errors:key_1:2024-01-01'' \<mapsto> 1,
                                     ''errors:key_2:2024-01-01'' \<mapsto> 1]\<rparr>"

definition strainedStart :: world where
  "strainedStart = (countRequest strainedWorld)\<lparr>pendingRequests :=
     [generateCacheKey (weatherParams.truncate demoQuery)]\<rparr>"


section \<open>Evaluation of the calendar and of the examples\<close>

lemmas date_eval =
  getTodayString_def toISOString_def isoDate_def isoTime_def Day_def msPerDay_def
  civilFromDays_def isoYear_def digitChar_def pad2_def pad3_def pad4_def pad6_def
  localDayKey_def yearOfEra_def dayOfYear_def monthIndex_def dayOfMonth_def monthOf_def
  leapAdjusted_def daysBeforeYear_def

lemma demoToday: "getTodayString demoNow = ''2024-01-01''"
  by (simp add: demoNow_def date_eval)


section \<open>The selector\<close>

lemma insertSorted_set: "set (insertSorted cmp x xs) = insert x (set xs)"
  by (induction xs) auto

lemma sortBy_set: "set (sortBy cmp xs) = set xs"
  by (induction xs) (simp_all add: sortBy_def insertSorted_set)

lemma insertSorted_sorted:
  assumes tot: "\<And>a b. \<not> cmp a b \<le> 0 \<Longrightarrow> cmp b a \<le> 0"
    and tr: "\<And>a b c. cmp a b \<le> 0 \<Longrightarrow> cmp b c \<le> 0 \<Longrightarrow> cmp a c \<le> 0"
  shows "sorted_wrt (\<lambda>a b. cmp a b \<le> 0) xs \<Longrightarrow> sorted_wrt (\<lambda>a b. cmp a b \<le> 0) (insertSorted cmp x xs)"
proof (induction xs)
  case Nil
  then show ?case by simp
next
  case (Cons y ys)
  show ?case
  proof (cases "cmp x y \<le> 0")
    case True
    with Cons.prems show ?thesis by (auto intro: tr)
  next
    case False
    then have "cmp y x \<le> 0" by (rule tot)
    with False Cons show ?thesis by (auto simp: insertSorted_set)
  qed
qed

lemma sortBy_sorted:
  assumes tot: "\<And>a b. \<not> cmp a b \<le> 0 \<Longrightarrow> cmp b a \<le> 0"
    and tr: "\<And>a b c. cmp a b \<le> 0 \<Longrightarrow> cmp b c \<le> 0 \<Longrightarrow> cmp a c \<le> 0"
  shows "sorted_wrt (\<lambda>a b. cmp a b \<le> 0) (sortBy cmp xs)"
proof (induction xs)
  case Nil
  then show ?case by (simp add: sortBy_def)
next
  case (Cons x xs)
  have "sortBy cmp (x # xs) = insertSorted cmp x (sortBy cmp xs)" by (simp add: sortBy_def)
  with Cons insertSorted_sorted[of cmp, OF tot tr] show ?case by simp
qed

lemma compareKeys_le: "(compareKeys a b \<le> 0) = priorityThenUsage a b"
  by (auto simp: compareKeys_def priorityThenUsage_def)

lemma sortBy_compareKeys_sorted: "sorted_wrt priorityThenUsage (sortBy compareKeys xs)"
proof -
  have "sorted_wrt (\<lambda>a b. compareKeys a b \<le> 0) (sortBy compareKeys xs)"
    by (rule sortBy_sorted) (auto simp: compareKeys_le priorityThenUsage_def)
  then show ?thesis by (simp add: compareKeys_le)
qed

lemma truncate_withCounters: "keyInfo.truncate (withCounters k u e) = k"
  by (simp add: withCounters_def keyInfo.truncate_def keyInfo.extend_def)

lemma withCounters_sel:
  "currentUsage (withCounters k u e) = u" "currentErrors (withCounters k u e) = e"
  "priority (withCounters k u e) = priority k" "key_id (withCounters k u e) = key_id k"
  "key (withCounters k u e) = key k"
  by (simp_all add: withCounters_def keyInfo.extend_def availableKey.fields_def)

lemma redis_get_frame:
  "redis_get E k w = (r, w') \<Longrightarrow> w' = emit (RedisGet k) w"
  by (auto simp: redis_get_def split: if_splits)

lemma emit_sel: "kv (emit e w) = kv w" "tick (emit e w) = Suc (tick w)" "trace (emit e w) = trace w @ [e]"
  "cache (emit e w) = cache w" "stats (emit e w) = stats w" "pendingRequests (emit e w) = pendingRequests w"
  "lists (emit e w) = lists w" "ttl (emit e w) = ttl w"
  by (simp_all add: emit_def tick_def)

lemma collectKeys_kv:
  "collectKeys E today ks w = (r, w') \<Longrightarrow> kv w' = kv w \<and> tick w \<le> tick w'"
proof (induction ks arbitrary: w r w')
  case Nil
  then show ?case by simp
next
  case (Cons k ks)
  obtain r1 w1 where g1: "redis_get E (usageKey (key_id k) today) w = (r1, w1)" by force
  obtain r2 w2 where g2: "redis_get E (errorKey (key_id k) today) w1 = (r2, w2)" by force
  obtain r3 w3 where g3: "collectKeys E today ks w2 = (r3, w3)" by force
  obtain r4 w4 where g4: "collectKeys E today ks w1 = (r4, w4)" by force
  have f1: "w1 = emit (RedisGet (usageKey (key_id k) today)) w" using g1 by (rule redis_get_frame)
  have f2: "w2 = emit (RedisGet (errorKey (key_id k) today)) w1" using g2 by (rule redis_get_frame)
  from Cons.IH[OF g3] have i3: "kv w3 = kv w2 \<and> tick w2 \<le> tick w3" .
  from Cons.IH[OF g4] have i4: "kv w4 = kv w1 \<and> tick w1 \<le> tick w4" .
  show ?case using Cons.prems g1 g2 g3 g4 i3 i4
    by (auto simp: f1 f2 emit_sel split: sum.splits if_splits)
qed

lemma collectKeys_sound:
  "collectKeys E today ks w = (r, w') \<Longrightarrow> a \<in> set r \<Longrightarrow>
   \<exists>k \<in> set ks. a = withCounters k (usageCounter w (key_id k) today) (errorCounter w (key_id k) today)
      \<and> usageCounter w (key_id k) today < dailyLimit E \<and> errorCounter w (key_id k) today < 3"
proof (induction ks arbitrary: w r w')
  case Nil
  then show ?case by simp
next
  case (Cons k ks)
  obtain r1 w1 where g1: "redis_get E (usageKey (key_id k) today) w = (r1, w1)" by force
  obtain r2 w2 where g2: "redis_get E (errorKey (key_id k) today) w1 = (r2, w2)" by force
  obtain r3 w3 where g3: "collectKeys E today ks w2 = (r3, w3)" by force
  obtain r4 w4 where g4: "collectKeys E today ks w1 = (r4, w4)" by force
  have f1: "w1 = emit (RedisGet (usageKey (key_id k) today)) w" using g1 by (rule redis_get_frame)
  have f2: "w2 = emit (RedisGet (errorKey (key_id k) today)) w1" using g2 by (rule redis_get_frame)
  have k1: "kv w1 = kv w" and k2: "kv w2 = kv w" by (simp_all add: f1 f2 emit_sel)
  have c1: "usageCounter w1 i today = usageCounter w i today" "errorCounter w1 i today = errorCounter w i today"
       "usageCounter w2 i today = usageCounter w i today" "errorCounter w2 i today = errorCounter w i today" for i
    by (simp_all add: usageCounter_def errorCounter_def k1 k2)
  note ih3 = Cons.IH[OF g3, unfolded c1]
  note ih4 = Cons.IH[OF g4, unfolded c1]
  show ?case
  proof (cases r1)
    case (Inl e)
    with Cons.prems g1 g4 have "a \<in> set r4" by simp
    from ih4[OF this] show ?thesis by auto
  next
    case u: (Inr ru)
    show ?thesis
    proof (cases r2)
      case (Inl e)
      with Cons.prems g1 g2 g3 u have "a \<in> set r3" by simp
      from ih3[OF this] show ?thesis by auto
    next
      case e: (Inr re)
      have ru: "ru = kv w (usageKey (key_id k) today)" using g1 u by (auto simp: redis_get_def split: if_splits)
      have re: "re = kv w (errorKey (key_id k) today)" using g2 e k1 by (auto simp: redis_get_def split: if_splits)
      from Cons.prems g1 g2 g3 u e
      have "a \<in> set r3 \<or> (a = withCounters k (orZero ru) (orZero re) \<and> orZero ru < dailyLimit E \<and> orZero re < 3)"
        by (auto split: if_splits)
      then show ?thesis
      proof
        assume "a \<in> set r3"
        from ih3[OF this] show ?thesis by auto
      next
        assume "a = withCounters k (orZero ru) (orZero re) \<and> orZero ru < dailyLimit E \<and> orZero re < 3"
        then show ?thesis by (auto simp: ru re usageCounter_def errorCounter_def)
      qed
    qed
  qed
qed

lemma collectKeys_complete:
  "collectKeys E today ks w = (r, w') \<Longrightarrow> \<forall>n. tick w \<le> n \<and> n < tick w' \<longrightarrow> \<not> redisFails E n \<Longrightarrow>
   k \<in> set ks \<Longrightarrow>
   usageCounter w (key_id k) today < dailyLimit E \<Longrightarrow> errorCounter w (key_id k) today < 3 \<Longrightarrow>
   withCounters k (usageCounter w (key_id k) today) (errorCounter w (key_id k) today) \<in> set r"
proof (induction ks arbitrary: w r w')
  case Nil
  then show ?case by simp
next
  case (Cons k' ks)
  let ?w1 = "emit (RedisGet (usageKey (key_id k') today)) w"
  let ?w2 = "emit (RedisGet (errorKey (key_id k') today)) ?w1"
  obtain r3 w3 where g3: "collectKeys E today ks ?w2 = (r3, w3)" by force
  obtain r4 w4 where g4: "collectKeys E today ks ?w1 = (r4, w4)" by force
  from collectKeys_kv[OF g3] have t3: "tick ?w2 \<le> tick w3" by simp
  from collectKeys_kv[OF g4] have t4: "tick ?w1 \<le> tick w4" by simp
  have lt1: "tick w < tick w'"
    using Cons.prems(1) g3 g4 t3 t4
    by (auto simp: redis_get_def emit_sel split: if_splits)
  then have nf1: "\<not> redisFails E (tick w)" using Cons.prems(2) by simp
  have lt2: "Suc (tick w) < tick w'"
    using Cons.prems(1) g3 g4 t3 t4 nf1
    by (auto simp: redis_get_def emit_sel split: if_splits)
  then have nf2: "\<not> redisFails E (tick ?w1)" using Cons.prems(2) by (simp add: emit_sel)
  have w3: "w3 = w'"
    using Cons.prems(1) nf1 nf2 g3 by (auto simp: redis_get_def split: if_splits)
  have c2: "usageCounter ?w2 i today = usageCounter w i today" "errorCounter ?w2 i today = errorCounter w i today" for i
    by (simp_all add: usageCounter_def errorCounter_def emit_sel)
  have nf3: "\<forall>n. tick ?w2 \<le> n \<and> n < tick w3 \<longrightarrow> \<not> redisFails E n"
    using Cons.prems(2) by (simp add: emit_sel w3)
  have r: "r = (if usageCounter w (key_id k') today < dailyLimit E \<and> errorCounter w (key_id k') today < 3
                then withCounters k' (usageCounter w (key_id k') today) (errorCounter w (key_id k') today) # r3 else r3)"
    using Cons.prems(1) nf1 nf2 g3 by (auto simp: redis_get_def emit_sel usageCounter_def errorCounter_def)
  show ?case
  proof (cases "k = k'")
    case True
    with Cons.prems r show ?thesis by simp
  next
    case False
    with Cons.prems have "k \<in> set ks" by simp
    from Cons.IH[OF g3 nf3 this, unfolded c2] Cons.prems r show ?thesis by simp
  qed
qed

lemma getAllAvailableKeys_kv:
  "getAllAvailableKeys E w = (r, w') \<Longrightarrow> kv w' = kv w"
  by (auto simp: getAllAvailableKeys_def split: if_splits prod.splits dest: collectKeys_kv)


lemmas selector_eval =
  getAllAvailableKeys_def redis_get_def tick_def emit_def usageKey_def errorKey_def
  orZero_def sortBy_def compareKeys_def withCounters_sel

lemma skewed_selection:
  "fst (getAllAvailableKeys demoEnv skewedWorld) = Inr [withCounters demoKey1 5 0, withCounters demoKey2 0 0]"
  by (simp add: demoEnv_def skewedWorld_def freshWorld_def demoKeys_def demoToday selector_eval
      demoKey1_def demoKey2_def)

text \<open>
  C4, as stated: the list returned by the selector is sorted by current usage ascending,
  with priority ascending as the tie-break. It is not: with the first credential used five
  times and the second unused, the selector returns the first credential first.
\<close>

theorem C4_usage_order_counterexample:
  "fst (getAllAvailableKeys demoEnv skewedWorld) =
     Inr [withCounters demoKey1 5 0, withCounters demoKey2 0 0] \<and>
   \<not> sorted_wrt usageThenPriority [withCounters demoKey1 5 0, withCounters demoKey2 0 0]"
  by (simp add: skewed_selection usageThenPriority_def withCounters_sel demoKey1_def demoKey2_def)

text \<open>
  C4, amended: the list returned by the selector is sorted by priority ascending, with the
  current usage ascending as the tie-break when priorities are equal; the order is a
  function of the ledger snapshot (no randomisation).
\<close>

theorem C4_selector_sorted_by_priority_then_usage:
  "getAllAvailableKeys E w = (Inr ks, w') \<Longrightarrow> sorted_wrt priorityThenUsage ks"
  by (auto simp: getAllAvailableKeys_def sortBy_compareKeys_sorted split: if_splits prod.splits)

theorem C4_selector_sorted_by_priority_then_usage_witness:
  "getAllAvailableKeys demoEnv skewedWorld =
     (Inr [withCounters demoKey1 5 0, withCounters demoKey2 0 0],
      snd (getAllAvailableKeys demoEnv skewedWorld)) \<and>
   sorted_wrt priorityThenUsage [withCounters demoKey1 5 0, withCounters demoKey2 0 0]"
proof -
  have run: "getAllAvailableKeys demoEnv skewedWorld =
     (Inr [withCounters demoKey1 5 0, withCounters demoKey2 0 0],
      snd (getAllAvailableKeys demoEnv skewedWorld))"
    using skewed_selection by (cases "getAllAvailableKeys demoEnv skewedWorld") simp
  from C4_selector_sorted_by_priority_then_usage [OF run] run show ?thesis by simp
qed


section \<open>The fingerprint\<close>

lemma join_Cons: "join sep (x # xs) = x @ concat (map ((@) sep) xs)"
  by (induction xs arbitrary: x) simp_all

lemma token_split:
  assumes a: "CHR '':'' \<notin> set a" and b: "CHR '':'' \<notin> set b"
    and x: "x = [] \<or> hd x = CHR '':''" and y: "y = [] \<or> hd y = CHR '':''"
    and eq: "a @ x = b @ y"
  shows "a = b \<and> x = y"
proof -
  have tx: "takeWhile (\<lambda>c. c \<noteq> CHR '':'') (a @ x) = a"
    using a x by (cases x) (auto simp: takeWhile_append2 takeWhile_tail)
  have ty: "takeWhile (\<lambda>c. c \<noteq> CHR '':'') (b @ y) = b"
    using b y by (cases y) (auto simp: takeWhile_append2 takeWhile_tail)
  from tx ty eq have "a = b" by simp
  with eq show ?thesis by simp
qed

lemma splitOn_chars: "set s \<subseteq> insert sep (\<Union>(set ` set (splitOn sep s)))"
proof (induction s)
  case Nil
  then show ?case by simp
next
  case (Cons c cs)
  then show ?case by (cases "splitOn sep cs") (auto split: if_splits)
qed

lemma names_plain:
  "part \<in> set [''current'', ''minutely'', ''hourly'', ''daily'', ''alerts''] \<Longrightarrow>
   part \<noteq> [] \<and> CHR '':'' \<notin> set part"
  by (elim disjE | simp)+

lemma excludeOk_nonempty: "\<not> excludeOk []"
  by (simp add: excludeOk_def)

lemma excludeOk_shape:
  assumes ok: "excludeOk s"
  shows "s \<noteq> [] \<and> CHR '':'' \<notin> set s"
proof
  show "s \<noteq> []" using ok excludeOk_nonempty by blast
  show "CHR '':'' \<notin> set s"
  proof
    assume "CHR '':'' \<in> set s"
    with splitOn_chars[of s "CHR '',''"] obtain part where
      part: "part \<in> set (splitOn CHR '','' s)" "CHR '':'' \<in> set part" by auto
    from ok part(1) have "part \<in> set [''current'', ''minutely'', ''hourly'', ''daily'', ''alerts'']"
      unfolding excludeOk_def by blast
    from names_plain[OF this] part(2) show False by blast
  qed
qed

lemma units_plain:
  "s \<in> set [''standard'', ''metric'', ''imperial''] \<Longrightarrow> s \<noteq> [] \<and> CHR '':'' \<notin> set s"
  by (elim disjE | simp)+

lemma seg_simps:
  "keySegment label None = []" "s \<noteq> [] \<Longrightarrow> keySegment label (Some s) = '':'' @ label @ s"
  by (simp_all add: keySegment_def optPart_def)

lemma fp_shape:
  "generateCacheKey p = ''weather:lat:'' @ lat p @ '':lon:'' @ lon p @
     keySegment ''exclude:'' (exclude p) @ keySegment ''units:'' (units p) @ keySegment ''lang:'' (lang p)"
  by (simp add: generateCacheKey_def join_Cons keySegment_def)

lemma seg_head: "keySegment label v = [] \<or> hd (keySegment label v) = CHR '':''"
  by (cases v) (auto simp: keySegment_def optPart_def)

lemma segs_head: "keySegment l1 v1 @ keySegment l2 v2 = [] \<or> hd (keySegment l1 v1 @ keySegment l2 v2) = CHR '':''"
  using seg_head[of l1 v1] seg_head[of l2 v2] by (cases "keySegment l1 v1") auto

lemma segs3_head: "keySegment l1 v1 @ keySegment l2 v2 @ keySegment l3 v3 = [] \<or> hd (keySegment l1 v1 @ keySegment l2 v2 @ keySegment l3 v3) = CHR '':''"
  using seg_head[of l1 v1] segs_head[of l2 v2 l3 v3] by (cases "keySegment l1 v1") auto

lemma lang_tail:
  assumes "present g" "present g'" "keySegment ''lang:'' g = keySegment ''lang:'' g'"
  shows "g = g'"
  using assms by (cases g; cases g') (auto simp: present_def seg_simps)

lemma units_tail:
  assumes u: "colonFree u" "colonFree u'" and g: "present g" "present g'"
    and eq: "keySegment ''units:'' u @ keySegment ''lang:'' g = keySegment ''units:'' u' @ keySegment ''lang:'' g'"
  shows "u = u' \<and> g = g'"
proof (cases u; cases u')
  assume "u = None" "u' = None"
  with eq g show ?thesis by (simp add: seg_simps lang_tail)
next
  fix s assume "u = None" "u' = Some s"
  with eq u g show ?thesis by (cases g) (auto simp: seg_simps colonFree_def present_def)
next
  fix s assume "u = Some s" "u' = None"
  with eq u g show ?thesis by (cases g') (auto simp: seg_simps colonFree_def present_def)
next
  fix s s' assume uu: "u = Some s" "u' = Some s'"
  with u have ss: "s \<noteq> []" "s' \<noteq> []" "CHR '':'' \<notin> set s" "CHR '':'' \<notin> set s'"
    by (auto simp: colonFree_def)
  from eq uu ss have "s @ keySegment ''lang:'' g = s' @ keySegment ''lang:'' g'" by (simp add: seg_simps)
  from token_split[OF ss(3) ss(4) seg_head seg_head this] g uu show ?thesis
    by (auto intro: lang_tail)
qed

lemma exclude_tail:
  assumes e: "colonFree e" "colonFree e'" and u: "colonFree u" "colonFree u'" and g: "present g" "present g'"
    and eq: "keySegment ''exclude:'' e @ keySegment ''units:'' u @ keySegment ''lang:'' g =
             keySegment ''exclude:'' e' @ keySegment ''units:'' u' @ keySegment ''lang:'' g'"
  shows "e = e' \<and> u = u' \<and> g = g'"
proof (cases e; cases e')
  assume "e = None" "e' = None"
  with eq u g show ?thesis by (simp add: seg_simps units_tail)
next
  fix s assume "e = None" "e' = Some s"
  with eq e u g show ?thesis
    by (cases u; cases g) (auto simp: seg_simps colonFree_def present_def)
next
  fix s assume "e = Some s" "e' = None"
  with eq e u g show ?thesis
    by (cases u'; cases g') (auto simp: seg_simps colonFree_def present_def)
next
  fix s s' assume ee: "e = Some s" "e' = Some s'"
  with e have ss: "s \<noteq> []" "s' \<noteq> []" "CHR '':'' \<notin> set s" "CHR '':'' \<notin> set s'"
    by (auto simp: colonFree_def)
  from eq ee ss have "s @ keySegment ''units:'' u @ keySegment ''lang:'' g = s' @ keySegment ''units:'' u' @ keySegment ''lang:'' g'"
    by (simp add: seg_simps)
  from token_split[OF ss(3) ss(4) segs_head segs_head this] u g ee show ?thesis
    by (auto dest: units_tail)
qed

lemma validated_shape:
  assumes v: "validated p"
  shows "CHR '':'' \<notin> set (lat p) \<and> CHR '':'' \<notin> set (lon p) \<and>
     colonFree (exclude p) \<and> colonFree (units p) \<and> present (lang p)"
proof -
  have "colonFree (exclude p)"
    using v excludeOk_shape unfolding validated_def colonFree_def by (cases "exclude p") auto
  moreover have "colonFree (units p)"
    using v units_plain unfolding validated_def colonFree_def by (cases "units p") auto
  moreover have "present (lang p)"
    using v unfolding validated_def present_def by (cases "lang p") auto
  moreover have "CHR '':'' \<notin> set (lat p) \<and> CHR '':'' \<notin> set (lon p)"
    using v unfolding validated_def numberText_def by blast
  ultimately show ?thesis by blast
qed


lemma demoParams_validated: "validated demoParams"
  by (simp add: validated_def demoParams_def numberText_def)

lemma demoParamsEn_validated: "validated demoParamsEn"
  by (simp add: validated_def demoParamsEn_def demoParams_def numberText_def)

text \<open>
  C8: the fingerprint function is deterministic and injective on validated parameter sets:
  two validated parameter sets (whatever else the objects carry) have equal fingerprints
  exactly when they agree on lat, lon, exclude, units and lang.
\<close>

theorem C8_fingerprint_deterministic_and_injective:
  assumes p: "validated p" and q: "validated q"
  shows "(generateCacheKey p = generateCacheKey q) =
         (lat p = lat q \<and> lon p = lon q \<and> exclude p = exclude q \<and> units p = units q \<and> lang p = lang q)"
proof
  assume "lat p = lat q \<and> lon p = lon q \<and> exclude p = exclude q \<and> units p = units q \<and> lang p = lang q"
  then show "generateCacheKey p = generateCacheKey q" by (simp add: generateCacheKey_def)
next
  assume eq: "generateCacheKey p = generateCacheKey q"
  note sp = validated_shape[OF p] and sq = validated_shape[OF q]
  let ?tp = "keySegment ''exclude:'' (exclude p) @ keySegment ''units:'' (units p) @ keySegment ''lang:'' (lang p)"
  let ?tq = "keySegment ''exclude:'' (exclude q) @ keySegment ''units:'' (units q) @ keySegment ''lang:'' (lang q)"
  from eq have e1: "lat p @ ('':lon:'' @ lon p @ ?tp) = lat q @ ('':lon:'' @ lon q @ ?tq)"
    by (simp add: fp_shape)
  have "lat p = lat q \<and> '':lon:'' @ lon p @ ?tp = '':lon:'' @ lon q @ ?tq"
    by (rule token_split[OF _ _ _ _ e1]) (use sp sq in simp_all)
  then have lat: "lat p = lat q" and e2: "lon p @ ?tp = lon q @ ?tq" by simp_all
  have "lon p = lon q \<and> ?tp = ?tq"
    by (rule token_split[OF _ _ segs3_head segs3_head e2]) (use sp sq in simp_all)
  then have lon: "lon p = lon q" and e3: "?tp = ?tq" by simp_all
  from exclude_tail[OF _ _ _ _ _ _ e3] sp sq lat lon
  show "lat p = lat q \<and> lon p = lon q \<and> exclude p = exclude q \<and> units p = units q \<and> lang p = lang q"
    by simp
qed

theorem C8_fingerprint_deterministic_and_injective_witness:
  "validated demoParams \<and> validated demoParamsEn \<and>
   (generateCacheKey demoParams = generateCacheKey demoParamsEn) =
   (lat demoParams = lat demoParamsEn \<and> lon demoParams = lon demoParamsEn \<and>
    exclude demoParams = exclude demoParamsEn \<and> units demoParams = units demoParamsEn \<and>
    lang demoParams = lang demoParamsEn)"
  using C8_fingerprint_deterministic_and_injective [OF demoParams_validated demoParamsEn_validated]
    demoParams_validated demoParamsEn_validated
  by simp


section \<open>The fetch pipeline\<close>

lemma advances_refl: "advances E p w w"
  by (simp add: advances_def)

lemma advances_trans: "advances E p a b \<Longrightarrow> advances E p b c \<Longrightarrow> advances E p a c"
  unfolding advances_def
  by (elim conjE exE, intro conjI) (fastforce, meson order_trans)

lemma advances_emit:
  "benign E p e \<Longrightarrow> advances E p w (emit e w)"
  by (simp add: advances_def emit_def)

lemma advances_same:
  "trace w' = trace w \<Longrightarrow> kv w' = kv w \<Longrightarrow> advances E p w w'"
  by (simp add: advances_def)

lemma benign_redis [simp]:
  "benign E p (RedisGet k)" "benign E p (RedisIncr k)" "benign E p (RedisExpire k n)"
  "benign E p (RedisLpush k v)"
  by (simp_all add: benign_def)

lemma advances_redis_get: "redis_get E k w = (r, w') \<Longrightarrow> advances E p w w'"
  by (auto simp: redis_get_def advances_emit split: if_splits)

lemma advances_redis_incr: "redis_incr E k w = (r, w') \<Longrightarrow> advances E p w w'"
  by (auto simp: redis_incr_def advances_def emit_def orZero_def split: if_splits option.splits)

lemma advances_redis_expire: "redis_expire E k n w = (r, w') \<Longrightarrow> advances E p w w'"
  by (auto simp: redis_expire_def advances_def emit_def split: if_splits)

lemma advances_redis_lpush: "redis_lpush E k v w = (r, w') \<Longrightarrow> advances E p w w'"
  by (auto simp: redis_lpush_def advances_def emit_def split: if_splits)

lemma advances_collectKeys: "collectKeys E today ks w = (r, w') \<Longrightarrow> advances E p w w'"
proof (induction ks arbitrary: w r w')
  case Nil
  then show ?case by (simp add: advances_refl)
next
  case (Cons k ks)
  obtain r1 w1 where g1: "redis_get E (usageKey (key_id k) today) w = (r1, w1)" by force
  obtain r2 w2 where g2: "redis_get E (errorKey (key_id k) today) w1 = (r2, w2)" by force
  obtain r3 w3 where g3: "collectKeys E today ks w2 = (r3, w3)" by force
  obtain r4 w4 where g4: "collectKeys E today ks w1 = (r4, w4)" by force
  note a1 = advances_redis_get[OF g1, of p] and a2 = advances_redis_get[OF g2, of p]
  note a3 = Cons.IH[OF g3] and a4 = Cons.IH[OF g4]
  have "w' = w4 \<or> w' = w3"
    using Cons.prems g1 g2 g3 g4 by (auto split: sum.splits if_splits)
  then show ?case
  proof
    assume "w' = w4"
    from Cons.prems g1 g2 g3 g4 \<open>w' = w4\<close> a1 a4 show ?thesis
      by (auto intro: advances_trans)
  next
    assume "w' = w3"
    with a1 a2 a3 show ?thesis by (auto intro: advances_trans)
  qed
qed

lemma advances_getAllAvailableKeys: "getAllAvailableKeys E w = (r, w') \<Longrightarrow> advances E p w w'"
  by (auto simp: getAllAvailableKeys_def advances_refl split: if_splits prod.splits
      dest: advances_collectKeys)

lemma advances_recordUsage: "advances E p w (recordUsage E i w)"
proof -
  have on: "advances E p w (recordUsageOn E i today w)" for today
  proof -
    obtain r1 w1 where g1: "redis_incr E (usageKey i today) w = (r1, w1)" by force
    obtain r2 w2 where g2: "redis_expire E (usageKey i today) (48 * 60 * 60) w1 = (r2, w2)" by force
    obtain r3 w3 where g3: "redis_lpush E (timeKey i today) (dateNow E (tick w2)) w2 = (r3, w3)" by force
    obtain r4 w4 where g4: "redis_expire E (timeKey i today) (48 * 60 * 60) w3 = (r4, w4)" by force
    note a1 = advances_redis_incr[OF g1, of p]
    note a2 = advances_trans[OF a1 advances_redis_expire[OF g2]]
    note a3 = advances_trans[OF a2 advances_redis_lpush[OF g3]]
    note a4 = advances_trans[OF a3 advances_redis_expire[OF g4]]
    show ?thesis using g1 g2 g3 g4 a1 a2 a3 a4
      by (auto simp: recordUsageOn_def split: sum.splits)
  qed
  then show ?thesis by (simp add: recordUsage_def advances_refl)
qed

lemma advances_recordError: "advances E p w (snd (recordError E i w))"
proof -
  have on: "advances E p w (snd (recordErrorOn E i today w))" for today
  proof -
    obtain r1 w1 where g1: "redis_incr E (errorKey i today) w = (r1, w1)" by force
    obtain r2 w2 where g2: "redis_expire E (errorKey i today) (48 * 60 * 60) w1 = (r2, w2)" by force
    note a1 = advances_redis_incr[OF g1, of p]
    note a2 = advances_trans[OF a1 advances_redis_expire[OF g2]]
    show ?thesis using g1 g2 a1 a2
      by (auto simp: recordErrorOn_def split: sum.splits)
  qed
  then show ?thesis by (simp add: recordError_def advances_refl)
qed

lemma advances_storeResult: "storeResult E ck d w = (r, w') \<Longrightarrow> advances E p w w'"
  by (auto simp: storeResult_def cache_set_def countCacheWrite_def advances_def
      split: if_splits)

lemma advances_countApiCall: "advances E p w (countApiCall w)"
  by (simp add: countApiCall_def advances_def)

lemma advances_tryKey:
  assumes k: "key a \<in> key ` set (keys E)"
    and run: "tryKey E p ck a w = (r, w')"
  shows "advances E p w w'"
proof -
  let ?w1 = "emit (HttpGet (buildApiUrl p (key a))) w"
  have b: "benign E p (HttpGet (buildApiUrl p (key a)))"
    using k by (auto simp: benign_def)
  have a1: "advances E p w ?w1" using b by (rule advances_emit)
  show ?thesis
  proof (cases "httpReply E (tick w) (buildApiUrl p (key a))")
    case (Inl e)
    with run a1 show ?thesis by (simp add: tryKey_def httpGet_def)
  next
    case (Inr d)
    obtain r2 w2 where s: "storeResult E ck d (countApiCall (recordUsage E (key_id a) ?w1)) = (r2, w2)"
      by force
    have "advances E p w w2"
      using a1 advances_recordUsage[of E p ?w1 "key_id a"]
        advances_countApiCall[of E p "recordUsage E (key_id a) ?w1"]
        advances_storeResult[OF s, of p]
      by (blast intro: advances_trans)
    with run Inr s show ?thesis by (auto simp: tryKey_def httpGet_def split: sum.splits)
  qed
qed

lemma advances_tryKeys:
  "\<forall>a \<in> set ks. key a \<in> key ` set (keys E) \<Longrightarrow> tryKeys E p ck ks le w = (r, w') \<Longrightarrow>
   advances E p w w'"
proof (induction ks arbitrary: le w r w')
  case Nil
  then show ?case by (simp add: advances_refl)
next
  case (Cons a ks)
  obtain r1 w1 where t: "tryKey E p ck a w = (r1, w1)" by force
  have a1: "advances E p w w1" using Cons.prems(1) t by (auto intro: advances_tryKey)
  show ?case
  proof (cases r1)
    case (Inr d)
    with Cons.prems t a1 show ?thesis by simp
  next
    case (Inl e)
    let ?w2 = "snd (recordError E (key_id a) w1)"
    from Cons.prems t Inl have rest: "tryKeys E p ck ks (Some e) ?w2 = (r, w')" by simp
    have "advances E p ?w2 w'" using Cons.IH[OF _ rest] Cons.prems(1) by simp
    with a1 advances_recordError[of E p w1 "key_id a"] show ?thesis
      by (blast intro: advances_trans)
  qed
qed

lemma selected_keys_configured:
  assumes "getAllAvailableKeys E w = (Inr ks, w')" "a \<in> set ks"
  shows "\<exists>k \<in> set (keys E). a = withCounters k (currentUsage a) (currentErrors a)"
proof -
  obtain r where col: "collectKeys E (getTodayString (dateNow E (tick w))) (keys E) w = (r, w')"
    and ks: "ks = sortBy compareKeys r"
    using assms(1) by (auto simp: getAllAvailableKeys_def split: if_splits prod.splits)
  from assms(2) ks have "a \<in> set r" by (simp add: sortBy_set)
  from collectKeys_sound[OF col this] show ?thesis by (auto simp: withCounters_sel)
qed

lemma selected_secret_configured:
  assumes "getAllAvailableKeys E w = (Inr ks, w')" "a \<in> set ks"
  shows "key a \<in> key ` set (keys E)"
proof -
  from selected_keys_configured[OF assms] obtain k where
    "k \<in> set (keys E)" "a = withCounters k (currentUsage a) (currentErrors a)" by blast
  then have "key a = key k" by (metis withCounters_sel(5))
  with \<open>k \<in> set (keys E)\<close> show ?thesis by (simp add: rev_image_eqI)
qed

lemma advances_attemptOnce:
  assumes "attemptOnce E p ck le w = (r, w')"
  shows "advances E p w w'"
proof (cases "getAllAvailableKeys E w")
  case (Pair r1 w1)
  note a1 = advances_getAllAvailableKeys[OF Pair, of p]
  show ?thesis
  proof (cases r1)
    case (Inl e)
    with assms Pair a1 show ?thesis by (simp add: attemptOnce_def)
  next
    case (Inr ks)
    show ?thesis
    proof (cases "ks = []")
      case True
      with assms Pair Inr a1 show ?thesis by (simp add: attemptOnce_def)
    next
      case False
      with assms Pair Inr have t: "tryKeys E p ck ks le w1 = (r, w')" by (simp add: attemptOnce_def)
      have "\<forall>a \<in> set ks. key a \<in> key ` set (keys E)"
        using selected_secret_configured Pair Inr by blast
      from advances_tryKeys[OF this t] a1 show ?thesis by (blast intro: advances_trans)
    qed
  qed
qed

lemma sleepsOf_append: "sleepsOf (xs @ ys) = sleepsOf xs @ sleepsOf ys"
  by (induction xs rule: sleepsOf.induct) simp_all

lemma httpUrls_append: "httpUrls (xs @ ys) = httpUrls xs @ httpUrls ys"
  by (induction xs rule: httpUrls.induct) simp_all

lemma benign_events:
  "\<forall>e \<in> set evs. benign E p e \<Longrightarrow>
   sleepsOf evs = [] \<and> set (httpUrls evs) \<subseteq> set (map (\<lambda>k. buildApiUrl p (key k)) (keys E))"
proof (induction evs)
  case Nil
  then show ?case by simp
next
  case (Cons e evs)
  then show ?case by (cases e) (auto simp: benign_def)
qed

lemma attempts_progress:
  "attempts E p ck as le w = (r, w') \<Longrightarrow>
   \<exists>n evs. n \<le> length as \<and> (isl r \<longrightarrow> n = length as) \<and> (\<not> isl r \<longrightarrow> n < length as) \<and>
     trace w' = trace w @ evs \<and>
     sleepsOf evs = map (\<lambda>a. retryDelay E * a) (filter (\<lambda>a. a < retryCount E) (take n as)) \<and>
     set (httpUrls evs) \<subseteq> set (map (\<lambda>k. buildApiUrl p (key k)) (keys E)) \<and>
     (\<forall>k. orZero (kv w k) \<le> orZero (kv w' k))"
proof (induction as arbitrary: le w r w')
  case Nil
  then show ?case by auto
next
  case (Cons a as)
  obtain d le1 w1 where once: "attemptOnce E p ck le w = ((d, le1), w1)"
    by (metis prod.collapse)
  from advances_attemptOnce[OF once] obtain evs1 where
    e1: "trace w1 = trace w @ evs1" "\<forall>e \<in> set evs1. benign E p e"
    and m1: "\<forall>k. orZero (kv w k) \<le> orZero (kv w1 k)"
    unfolding advances_def by blast
  note b1 = benign_events[OF e1(2)]
  show ?case
  proof (cases d)
    case (Some body)
    with Cons.prems once have "r = Inr body" "w' = w1" by simp_all
    with e1 b1 m1 show ?thesis
      by (intro exI[of _ 0] exI[of _ evs1]) simp
  next
    case None
    let ?w2 = "if a < retryCount E then sleep (retryDelay E * a) w1 else w1"
    from Cons.prems once None have rest: "attempts E p ck as le1 ?w2 = (r, w')" by simp
    from Cons.IH[OF rest] obtain n evs where
      n: "n \<le> length as" "isl r \<longrightarrow> n = length as" "\<not> isl r \<longrightarrow> n < length as"
      and t: "trace w' = trace ?w2 @ evs"
      and s: "sleepsOf evs = map (\<lambda>a. retryDelay E * a) (filter (\<lambda>a. a < retryCount E) (take n as))"
      and u: "set (httpUrls evs) \<subseteq> set (map (\<lambda>k. buildApiUrl p (key k)) (keys E))"
      and m: "\<forall>k. orZero (kv ?w2 k) \<le> orZero (kv w' k)"
      by blast
    let ?mid = "if a < retryCount E then [Sleep (retryDelay E * a)] else []"
    have t2: "trace ?w2 = trace w1 @ ?mid" "kv ?w2 = kv w1"
      by (simp_all add: sleep_def emit_def)
    have tr: "trace w' = trace w @ (evs1 @ ?mid @ evs)" using t t2 e1 by simp
    have sl: "sleepsOf (evs1 @ ?mid @ evs) =
        map (\<lambda>a. retryDelay E * a) (filter (\<lambda>a. a < retryCount E) (take (Suc n) (a # as)))"
      using b1 s by (simp add: sleepsOf_append)
    have ur: "set (httpUrls (evs1 @ ?mid @ evs)) \<subseteq> set (map (\<lambda>k. buildApiUrl p (key k)) (keys E))"
      using b1 u by (simp add: httpUrls_append)
    have mo: "\<forall>k. orZero (kv w k) \<le> orZero (kv w' k)"
      using m1 m t2(2) by (metis order_trans)
    show ?thesis
      apply (intro exI[of _ "Suc n"] exI[of _ "evs1 @ ?mid @ evs"])
      using n tr sl ur mo by simp
  qed
qed

lemma filter_upto_below:
  "n \<le> nat c \<Longrightarrow> filter (\<lambda>a. a < c) (take n [1..c]) = [1..min (int n) (c - 1)]"
proof (induction n)
  case 0
  then show ?case by simp
next
  case (Suc n)
  then have le: "n < nat c" by simp
  then have len: "n < length [1..c]" by simp
  have nth: "[1..c] ! n = int n + 1" using le by simp
  have tk: "take (Suc n) [1..c] = take n [1..c] @ [int n + 1]"
    using take_Suc_conv_app_nth[OF len] nth by simp
  show ?case
  proof (cases "int n + 1 < c")
    case True
    then have "[1..min (int (Suc n)) (c - 1)] = [1..int n] @ [int n + 1]"
      by (simp add: min_def upto_rec2)
    with Suc True tk show ?thesis by (simp add: min_def)
  next
    case False
    with le have c: "c = int n + 1" by linarith
    have "filter (\<lambda>a. a < c) (take (Suc n) [1..c]) = filter (\<lambda>a. a < c) (take n [1..c])"
      by (subst tk) (simp add: c)
    also have "\<dots> = [1..min (int n) (c - 1)]" using Suc by simp
    also have "\<dots> = [1..min (int (Suc n)) (c - 1)]" using c by (simp add: min_def)
    finally show ?thesis .
  qed
qed

lemma fetch_progress:
  assumes "fetchWeatherFromAPI E p ck w = (r, w')"
  shows "\<exists>m evs. m \<le> retryCount E - 1 \<and> (isl r \<longrightarrow> m = retryCount E - 1) \<and>
     trace w' = trace w @ evs \<and>
     sleepsOf evs = map (\<lambda>a. retryDelay E * a) [1..m] \<and>
     set (httpUrls evs) \<subseteq> set (map (\<lambda>k. buildApiUrl p (key k)) (keys E)) \<and>
     (\<forall>k. orZero (kv w k) \<le> orZero (kv w' k))"
proof -
  from assms have "attempts E p ck [1..retryCount E] None w = (r, w')"
    by (simp add: fetchWeatherFromAPI_def)
  from attempts_progress[OF this] obtain n evs where
    n: "n \<le> nat (retryCount E)" "isl r \<longrightarrow> n = nat (retryCount E)"
       "\<not> isl r \<longrightarrow> n < nat (retryCount E)"
    and t: "trace w' = trace w @ evs"
    and s: "sleepsOf evs = map (\<lambda>a. retryDelay E * a)
              (filter (\<lambda>a. a < retryCount E) (take n [1..retryCount E]))"
    and u: "set (httpUrls evs) \<subseteq> set (map (\<lambda>k. buildApiUrl p (key k)) (keys E))"
    and m: "\<forall>k. orZero (kv w k) \<le> orZero (kv w' k)"
    by auto
  let ?m = "min (int n) (retryCount E - 1)"
  have s': "sleepsOf evs = map (\<lambda>a. retryDelay E * a) [1..?m]"
    using s filter_upto_below[OF n(1)] by simp
  have "?m \<le> retryCount E - 1" by simp
  moreover have "isl r \<longrightarrow> ?m = retryCount E - 1" using n(2) by auto
  ultimately show ?thesis using t s' u m by blast
qed

lemma since_append: "trace w' = trace w @ evs \<Longrightarrow> since w w' = evs"
  by (simp add: since_def)

text \<open>
  C7: when attempt number \<open>a\<close> with \<open>a < RetryCount\<close> ends without a successful
  upstream response, exactly one sleep of \<open>RetryDelay * a\<close> milliseconds precedes the
  remaining attempts (linear in the attempt number). So the sleeps of one fetch are
  \<open>RetryDelay * 1, RetryDelay * 2, \<dots>\<close> in this order, and when every attempt fails
  they are those of the attempts \<open>1 \<dots> RetryCount - 1\<close>.
\<close>

theorem C7_linear_backoff:
  "(attemptOnce E p ck le w = ((None, le1), w1) \<longrightarrow> a < retryCount E \<longrightarrow>
      attempts E p ck (a # rest) le w =
      attempts E p ck rest le1 (w1\<lparr>trace := trace w1 @ [Sleep (retryDelay E * a)]\<rparr>)) \<and>
   (fetchWeatherFromAPI E p ck w = (r, w') \<longrightarrow>
      (\<exists>m \<le> retryCount E - 1. sleepsOf (since w w') = map (\<lambda>a. retryDelay E * a) [1..m]) \<and>
      (isl r \<longrightarrow> sleepsOf (since w w') = map (\<lambda>a. retryDelay E * a) [1..retryCount E - 1]))"
proof (intro conjI impI)
  assume "attemptOnce E p ck le w = ((None, le1), w1)" "a < retryCount E"
  then show "attempts E p ck (a # rest) le w =
      attempts E p ck rest le1 (w1\<lparr>trace := trace w1 @ [Sleep (retryDelay E * a)]\<rparr>)"
    by (simp add: sleep_def emit_def)
next
  assume run: "fetchWeatherFromAPI E p ck w = (r, w')"
  from fetch_progress[OF run] obtain m evs where
    m: "m \<le> retryCount E - 1" "isl r \<longrightarrow> m = retryCount E - 1"
    and t: "trace w' = trace w @ evs"
    and s: "sleepsOf evs = map (\<lambda>a. retryDelay E * a) [1..m]" by blast
  from since_append[OF t] s m
  show "\<exists>m \<le> retryCount E - 1. sleepsOf (since w w') = map (\<lambda>a. retryDelay E * a) [1..m]"
    by auto
  assume "isl r"
  with since_append[OF t] s m
  show "sleepsOf (since w w') = map (\<lambda>a. retryDelay E * a) [1..retryCount E - 1]"
    by auto
qed

lemma offline_attempt:
  "attemptOnce offlineEnv demoParams ck le w = ((None, Some (PlainError msg_redisUnavailable)), w)"
  by (simp add: attemptOnce_def getAllAvailableKeys_def offlineEnv_def demoEnv_def)

lemma offline_fetch:
  "fetchWeatherFromAPI offlineEnv demoParams ck freshWorld =
     (Inl (Some (PlainError msg_redisUnavailable)),
      freshWorld\<lparr>trace := [Sleep 1000, Sleep 2000]\<rparr>)"
proof -
  have rc: "retryCount offlineEnv = 3" "retryDelay offlineEnv = 1000"
    by (simp_all add: offlineEnv_def demoEnv_def)
  have l: "[1..3] = [1, 2, (3::int)]" by (simp add: upto_rec1)
  show ?thesis
    by (simp add: fetchWeatherFromAPI_def rc l offline_attempt sleep_def emit_def freshWorld_def)
qed

theorem C7_linear_backoff_witness:
  "attemptOnce offlineEnv demoParams ''k'' None freshWorld =
     ((None, Some (PlainError msg_redisUnavailable)), freshWorld) \<and>
   (1::int) < retryCount offlineEnv \<and>
   attempts offlineEnv demoParams ''k'' [1, 2] None freshWorld =
     attempts offlineEnv demoParams ''k'' [2] (Some (PlainError msg_redisUnavailable))
       (freshWorld\<lparr>trace := trace freshWorld @ [Sleep (retryDelay offlineEnv * 1)]\<rparr>) \<and>
   isl (fst (fetchWeatherFromAPI offlineEnv demoParams ''k'' freshWorld)) \<and>
   sleepsOf (since freshWorld (snd (fetchWeatherFromAPI offlineEnv demoParams ''k'' freshWorld)))
     = [1000, 2000]"
proof -
  have rc: "retryCount offlineEnv = 3" "retryDelay offlineEnv = 1000"
    by (simp_all add: offlineEnv_def demoEnv_def)
  have l: "[1..2] = [1, (2::int)]" by (simp add: upto_rec1)
  note inst = C7_linear_backoff [of offlineEnv demoParams "''k''" None freshWorld
      "Some (PlainError msg_redisUnavailable)" freshWorld 1 "[2]"
      "Inl (Some (PlainError msg_redisUnavailable))" "freshWorld\<lparr>trace := [Sleep 1000, Sleep 2000]\<rparr>"]
  from inst show ?thesis
    by (simp add: offline_attempt offline_fetch rc l)
qed


section \<open>Recording usage\<close>

lemmas pipeline_eval =
  getWeatherData_def onMiss_def cachedData_def cache_get_def countRequest_def
  fetchWeatherFromAPI_def attemptOnce_def tryKey_def httpGet_def storeResult_def cache_set_def
  countApiCall_def countCacheWrite_def countCacheHit_def countError_def updateResponseTime_def
  recordUsage_def recordUsageOn_def recordError_def recordErrorOn_def
  redis_incr_def redis_expire_def redis_lpush_def timeKey_def sleep_def
  selector_eval

lemma upto3: "[1..3] = [1, 2, (3::int)]" by (simp add: upto_rec1)

lemma demoFp: "generateCacheKey demoParams = ''weather:lat:39.9042:lon:116.4074:units:metric:lang:zh_cn''"
  by (simp add: generateCacheKey_def demoParams_def optPart_def)

lemmas demo_eval = demoEnv_def freshWorld_def noStats_def demoKeys_def demoKey1_def demoKey2_def
  demoToday demoFp upto3

lemma demoEnv_fields:
  "redisFails demoEnv n = False" "redisConnected demoEnv n"
  "keys demoEnv = demoKeys" "dateNow demoEnv n = demoNow" "dailyLimit demoEnv = 1000"
  "initError demoEnv = None" "cacheEnabled demoEnv" "retryCount demoEnv = 3"
  "retryDelay demoEnv = 1000" "stdTTL demoEnv = 300" "maxKeys demoEnv = 10000"
  "expectedAppId demoEnv = Some ''app-id''" "httpReply demoEnv n url = Inr demoBody"
  by (simp_all add: demoEnv_def)

lemma freshWorld_fields:
  "kv freshWorld = Map.empty" "trace freshWorld = []" "cache freshWorld = []"
  "pendingRequests freshWorld = []" "stats freshWorld = noStats" "tick freshWorld = 0"
  by (simp_all add: freshWorld_def tick_def)

lemma cachedData_frame:
  "cachedData E ck w = (x, w1) \<Longrightarrow>
   trace w1 = trace w \<and> kv w1 = kv w \<and> stats w1 = stats w \<and>
   pendingRequests w1 = pendingRequests w \<and> lists w1 = lists w \<and> ttl w1 = ttl w"
  by (auto simp: cachedData_def cache_get_def split: if_splits option.splits)















lemma errorKey_not_usageKey: "errorKey i d \<noteq> usageKey i' d'"
  by (simp add: errorKey_def usageKey_def)

























section \<open>The service entry and the ledger over time\<close>

lemma onMiss_progress:
  assumes "onMiss E p ck st w = (r, w')"
  shows "\<exists>evs. trace w' = trace w @ evs \<and>
     set (httpUrls evs) \<subseteq> set (map (\<lambda>k. buildApiUrl p (key k)) (keys E)) \<and>
     (\<forall>k. orZero (kv w k) \<le> orZero (kv w' k))"
proof (cases "ck \<in> set (pendingRequests w)")
  case True
  with assms show ?thesis by (simp add: onMiss_def)
next
  case False
  obtain r1 w1 where f: "fetchWeatherFromAPI E p ck (w\<lparr>pendingRequests := ck # pendingRequests w\<rparr>) = (r1, w1)"
    by force
  from fetch_progress[OF f] obtain evs where
    e: "trace w1 = trace w @ evs"
       "set (httpUrls evs) \<subseteq> set (map (\<lambda>k. buildApiUrl p (key k)) (keys E))"
       "\<forall>k. orZero (kv w k) \<le> orZero (kv w1 k)"
    by auto
  have "trace w' = trace w1 \<and> kv w' = kv w1"
    using assms False f
    by (auto simp: onMiss_def updateResponseTime_def countError_def split: sum.splits)
  with e show ?thesis by auto
qed

lemma getWeatherData_progress:
  assumes "getWeatherData E p w = (r, w')"
  shows "\<exists>evs. trace w' = trace w @ evs \<and>
     set (httpUrls evs) \<subseteq> set (map (\<lambda>k. buildApiUrl p (key k)) (keys E)) \<and>
     (\<forall>k. orZero (kv w k) \<le> orZero (kv w' k))"
proof (cases "initError E")
  case (Some e)
  with assms show ?thesis
    by (auto simp: getWeatherData_def updateResponseTime_def countError_def countRequest_def)
next
  case None
  obtain x w1 where c: "cachedData E (generateCacheKey p) (countRequest w) = (x, w1)" by force
  from cachedData_frame[OF c] have f1: "trace w1 = trace w" "kv w1 = kv w"
    by (simp_all add: countRequest_def)
  have "(\<exists>d. r = Returns d \<and> w' = updateResponseTime E (dateNow E (tick w)) (countCacheHit w1)) \<or>
        onMiss E p (generateCacheKey p) (dateNow E (tick w)) w1 = (r, w')"
    using assms None c by (auto simp: getWeatherData_def split: option.splits if_splits)
  then show ?thesis
  proof
    assume "\<exists>d. r = Returns d \<and> w' = updateResponseTime E (dateNow E (tick w)) (countCacheHit w1)"
    with f1 show ?thesis by (auto simp: updateResponseTime_def countCacheHit_def)
  next
    assume "onMiss E p (generateCacheKey p) (dateNow E (tick w)) w1 = (r, w')"
    from onMiss_progress[OF this] f1 show ?thesis by simp
  qed
qed

lemma afterCalls_monotone: "orZero (kv w k) \<le> orZero (kv (afterCalls cs w) k)"
proof (induction cs arbitrary: w)
  case Nil
  then show ?case by simp
next
  case (Cons c cs)
  obtain E p where c: "c = (E, p)" by force
  obtain r w1 where g: "getWeatherData E p w = (r, w1)" by force
  from getWeatherData_progress[OF g] have "orZero (kv w k) \<le> orZero (kv w1 k)" by blast
  also have "\<dots> \<le> orZero (kv (afterCalls cs w1) k)" by (rule Cons.IH)
  finally show ?case using c g by simp
qed

lemma failedRead_absent: "\<forall>e \<in> set evs. e \<noteq> RedisGet k \<Longrightarrow> \<not> failedRead E n evs k"
  by (induction evs arbitrary: n) auto

lemma usageKey_inj: "(usageKey i d = usageKey i' d) = (i = i')"
  by (simp add: usageKey_def)

lemma errorKey_inj: "(errorKey i d = errorKey i' d) = (i = i')"
  by (simp add: errorKey_def)

lemma collectKeys_members:
  assumes "collectKeys E today ks w = (r, w')" "a \<in> set r"
  shows "keyInfo.truncate a \<in> set ks"
  using collectKeys_sound[OF assms] by (auto simp: truncate_withCounters)

lemma readsOf_other:
  assumes "key_id c \<notin> key_id ` set ks" "e \<in> readsOf today ks"
  shows "e \<noteq> RedisGet (usageKey (key_id c) today)" "e \<noteq> RedisGet (errorKey (key_id c) today)"
  using assms by (auto simp: readsOf_def usageKey_inj errorKey_inj errorKey_not_usageKey
      errorKey_not_usageKey[symmetric])

lemma collectKeys_exact:
  "collectKeys E today ks w = (r, w') \<Longrightarrow> distinct (map key_id ks) \<Longrightarrow>
   \<exists>evs. trace w' = trace w @ evs \<and> set evs \<subseteq> readsOf today ks \<and>
     (\<forall>c \<in> set ks.
        (withCounters c (usageCounter w (key_id c) today) (errorCounter w (key_id c) today) \<in> set r) =
        (usageCounter w (key_id c) today < dailyLimit E \<and> errorCounter w (key_id c) today < 3 \<and>
         \<not> failedRead E (tick w) evs (usageKey (key_id c) today) \<and>
         \<not> failedRead E (tick w) evs (errorKey (key_id c) today)))"
proof (induction ks arbitrary: w r w')
  case Nil
  then show ?case by simp
next
  case (Cons k ks)
  let ?uk = "usageKey (key_id k) today" and ?ek = "errorKey (key_id k) today"
  let ?w1 = "emit (RedisGet ?uk) w"
  let ?w2 = "emit (RedisGet ?ek) ?w1"
  let ?in = "\<lambda>c r. withCounters c (usageCounter w (key_id c) today) (errorCounter w (key_id c) today) \<in> set r"
  let ?below = "\<lambda>c. usageCounter w (key_id c) today < dailyLimit E \<and> errorCounter w (key_id c) today < 3"
  from Cons.prems(2) have dist: "distinct (map key_id ks)" and fresh: "key_id k \<notin> key_id ` set ks"
    by simp_all
  have cnt: "usageCounter ?w1 i today = usageCounter w i today" "errorCounter ?w1 i today = errorCounter w i today"
    "usageCounter ?w2 i today = usageCounter w i today" "errorCounter ?w2 i today = errorCounter w i today" for i
    by (simp_all add: usageCounter_def errorCounter_def emit_sel)
  have other: "key_id c \<noteq> key_id k" "c \<noteq> k" if "c \<in> set ks" for c
  proof -
    from that have "key_id c \<in> key_id ` set ks" by (rule imageI)
    with fresh show "key_id c \<noteq> key_id k" by metis
    then show "c \<noteq> k" by auto
  qed
  have sub: "readsOf today ks \<subseteq> readsOf today (k # ks)"
    "RedisGet ?uk \<in> readsOf today (k # ks)" "RedisGet ?ek \<in> readsOf today (k # ks)"
    by (auto simp: readsOf_def)
  have notk: "\<not> ?in k r'" if "collectKeys E today ks v = (r', v')" for r' v v'
  proof
    assume "?in k r'"
    from collectKeys_members[OF that this] have "k \<in> set ks" by (simp add: truncate_withCounters)
    with fresh show False by auto
  qed
  show ?case
  proof (cases "redisFails E (tick w)")
    case f1: True
    with Cons.prems(1) have col: "collectKeys E today ks ?w1 = (r, w')"
      by (simp add: redis_get_def)
    from Cons.IH[OF col dist] obtain evs where
      e: "trace w' = trace ?w1 @ evs" "set evs \<subseteq> readsOf today ks"
      and c: "\<forall>c \<in> set ks. ?in c r =
          (?below c \<and> \<not> failedRead E (tick ?w1) evs (usageKey (key_id c) today) \<and>
           \<not> failedRead E (tick ?w1) evs (errorKey (key_id c) today))"
      unfolding cnt by blast
    let ?evs = "RedisGet ?uk # evs"
    have t: "trace w' = trace w @ ?evs" using e(1) by (simp add: emit_sel)
    have s: "set ?evs \<subseteq> readsOf today (k # ks)" using e(2) sub by auto
    have "?in c r = (?below c \<and> \<not> failedRead E (tick w) ?evs (usageKey (key_id c) today) \<and>
           \<not> failedRead E (tick w) ?evs (errorKey (key_id c) today))" if "c \<in> set (k # ks)" for c
    proof (cases "c = k")
      case True
      with notk[OF col] f1 show ?thesis by simp
    next
      case False
      with that have m: "c \<in> set ks" by simp
      from c m other[OF m] show ?thesis
        by (simp add: emit_sel usageKey_inj errorKey_inj errorKey_not_usageKey
            errorKey_not_usageKey[symmetric])
    qed
    with t s show ?thesis by blast
  next
    case n1: False
    show ?thesis
    proof (cases "redisFails E (Suc (tick w))")
      case f2: True
      with n1 Cons.prems(1) have col: "collectKeys E today ks ?w2 = (r, w')"
        by (simp add: redis_get_def emit_sel)
      from Cons.IH[OF col dist] obtain evs where
        e: "trace w' = trace ?w2 @ evs" "set evs \<subseteq> readsOf today ks"
        and c: "\<forall>c \<in> set ks. ?in c r =
            (?below c \<and> \<not> failedRead E (tick ?w2) evs (usageKey (key_id c) today) \<and>
             \<not> failedRead E (tick ?w2) evs (errorKey (key_id c) today))"
        unfolding cnt by blast
      let ?evs = "RedisGet ?uk # RedisGet ?ek # evs"
      have t: "trace w' = trace w @ ?evs" using e(1) by (simp add: emit_sel)
      have s: "set ?evs \<subseteq> readsOf today (k # ks)" using e(2) sub by auto
      have "?in c r = (?below c \<and> \<not> failedRead E (tick w) ?evs (usageKey (key_id c) today) \<and>
             \<not> failedRead E (tick w) ?evs (errorKey (key_id c) today))" if "c \<in> set (k # ks)" for c
      proof (cases "c = k")
        case True
        with notk[OF col] f2 show ?thesis by simp
      next
        case False
        with that have m: "c \<in> set ks" by simp
        from c m other[OF m] show ?thesis
          by (simp add: emit_sel usageKey_inj errorKey_inj errorKey_not_usageKey
              errorKey_not_usageKey[symmetric])
      qed
      with t s show ?thesis by blast
    next
      case n2: False
      obtain r3 w3 where col: "collectKeys E today ks ?w2 = (r3, w3)" by force
      have r: "r = (if ?below k
                    then withCounters k (usageCounter w (key_id k) today) (errorCounter w (key_id k) today) # r3
                    else r3)" and w': "w' = w3"
        using Cons.prems(1) n1 n2 col
        by (auto simp: redis_get_def emit_sel usageCounter_def errorCounter_def)
      from Cons.IH[OF col dist] obtain evs where
        e: "trace w3 = trace ?w2 @ evs" "set evs \<subseteq> readsOf today ks"
        and c: "\<forall>c \<in> set ks. ?in c r3 =
            (?below c \<and> \<not> failedRead E (tick ?w2) evs (usageKey (key_id c) today) \<and>
             \<not> failedRead E (tick ?w2) evs (errorKey (key_id c) today))"
        unfolding cnt by blast
      let ?evs = "RedisGet ?uk # RedisGet ?ek # evs"
      have t: "trace w' = trace w @ ?evs" using e(1) by (simp add: emit_sel w')
      have s: "set ?evs \<subseteq> readsOf today (k # ks)" using e(2) sub by auto
      have "?in c r = (?below c \<and> \<not> failedRead E (tick w) ?evs (usageKey (key_id c) today) \<and>
             \<not> failedRead E (tick w) ?evs (errorKey (key_id c) today))" if "c \<in> set (k # ks)" for c
      proof (cases "c = k")
        case True
        have "\<forall>e \<in> set evs. e \<noteq> RedisGet ?uk" "\<forall>e \<in> set evs. e \<noteq> RedisGet ?ek"
          using readsOf_other[OF fresh] e(2) by blast+
        then have "\<not> failedRead E n evs ?uk" "\<not> failedRead E n evs ?ek" for n
          by (simp_all add: failedRead_absent)
        with True notk[OF col] n1 n2 show ?thesis by (simp add: r)
      next
        case False
        with that have m: "c \<in> set ks" by simp
        have "withCounters c u e \<noteq> withCounters k u' e'" for u e u' e'
          using False by (metis truncate_withCounters)
        with c m other[OF m] show ?thesis
          by (simp add: r emit_sel usageKey_inj errorKey_inj errorKey_not_usageKey
              errorKey_not_usageKey[symmetric])
      qed
      with t s show ?thesis by blast
    qed
  qed
qed

text \<open>
  C3, amended: a configured credential appears in the list returned by the selector only if
  its usage counter for the current DayKey is below DailyLimit and its error counter is
  below 3. The credential ids being distinct (\<open>loadApiKeys\<close> numbers them \<open>key_1\<close>,
  \<open>key_2\<close>, \dots), it appears if and only if both hold and neither read of its own two
  counters fails during the selection (a credential whose counters cannot be read is
  skipped; a failed read of another credential's counter does not matter). In particular,
  when none of the commands the selection issues fails, it appears if and only if both
  hold. Once either bound has been reached for a DayKey, the credential stays excluded
  from selections under that DayKey after any further calls of the service, whose ledger
  writes never lower a counter.
\<close>

theorem C3_selector_membership:
  assumes run: "getAllAvailableKeys E w = (Inr ks, w')"
    and c: "c \<in> set (keys E)"
  shows "(appearsIn c ks \<longrightarrow>
            usageCounter w (key_id c) (getTodayString (dateNow E (tick w))) < dailyLimit E \<and>
            errorCounter w (key_id c) (getTodayString (dateNow E (tick w))) < 3) \<and>
         (distinct (map key_id (keys E)) \<longrightarrow>
            appearsIn c ks =
              (usageCounter w (key_id c) (getTodayString (dateNow E (tick w))) < dailyLimit E \<and>
               errorCounter w (key_id c) (getTodayString (dateNow E (tick w))) < 3 \<and>
               \<not> failedRead E (tick w) (since w w')
                    (usageKey (key_id c) (getTodayString (dateNow E (tick w)))) \<and>
               \<not> failedRead E (tick w) (since w w')
                    (errorKey (key_id c) (getTodayString (dateNow E (tick w)))))) \<and>
         ((\<forall>n. tick w \<le> n \<and> n < tick w' \<longrightarrow> \<not> redisFails E n) \<longrightarrow>
            usageCounter w (key_id c) (getTodayString (dateNow E (tick w))) < dailyLimit E \<longrightarrow>
            errorCounter w (key_id c) (getTodayString (dateNow E (tick w))) < 3 \<longrightarrow>
            appearsIn c ks) \<and>
         (w = afterCalls cs w0 \<longrightarrow>
            dailyLimit E \<le> usageCounter w0 (key_id c) (getTodayString (dateNow E (tick w))) \<or>
            3 \<le> errorCounter w0 (key_id c) (getTodayString (dateNow E (tick w))) \<longrightarrow>
            \<not> appearsIn c ks)"
proof -
  let ?today = "getTodayString (dateNow E (tick w))"
  let ?wc = "withCounters c (usageCounter w (key_id c) ?today) (errorCounter w (key_id c) ?today)"
  obtain r where col: "collectKeys E ?today (keys E) w = (r, w')" and ks: "ks = sortBy compareKeys r"
    using run by (auto simp: getAllAvailableKeys_def split: if_splits prod.splits)
  have set_ks: "set ks = set r" by (simp add: ks sortBy_set)
  have mem: "appearsIn c ks = (?wc \<in> set r)"
  proof
    assume "appearsIn c ks"
    then obtain a where a: "a \<in> set r" "keyInfo.truncate a = c"
      by (auto simp: appearsIn_def set_ks)
    from collectKeys_sound[OF col a(1)] a show "?wc \<in> set r"
      by (auto simp: truncate_withCounters)
  next
    assume "?wc \<in> set r"
    then have "keyInfo.truncate ?wc \<in> keyInfo.truncate ` set ks" unfolding set_ks by (rule imageI)
    then show "appearsIn c ks" by (simp add: appearsIn_def truncate_withCounters)
  qed
  have a: "usageCounter w (key_id c) ?today < dailyLimit E \<and> errorCounter w (key_id c) ?today < 3"
    if "appearsIn c ks"
  proof -
    from that obtain a where a: "a \<in> set r" "keyInfo.truncate a = c"
      by (auto simp: appearsIn_def set_ks)
    from collectKeys_sound[OF col a(1)] a(2) show ?thesis
      by (auto simp: truncate_withCounters)
  qed
  have x: "appearsIn c ks =
              (usageCounter w (key_id c) ?today < dailyLimit E \<and>
               errorCounter w (key_id c) ?today < 3 \<and>
               \<not> failedRead E (tick w) (since w w') (usageKey (key_id c) ?today) \<and>
               \<not> failedRead E (tick w) (since w w') (errorKey (key_id c) ?today))"
    if d: "distinct (map key_id (keys E))"
  proof -
    from collectKeys_exact[OF col d] obtain evs where
      t: "trace w' = trace w @ evs"
      and e: "\<forall>c \<in> set (keys E).
        (withCounters c (usageCounter w (key_id c) ?today) (errorCounter w (key_id c) ?today) \<in> set r) =
        (usageCounter w (key_id c) ?today < dailyLimit E \<and> errorCounter w (key_id c) ?today < 3 \<and>
         \<not> failedRead E (tick w) evs (usageKey (key_id c) ?today) \<and>
         \<not> failedRead E (tick w) evs (errorKey (key_id c) ?today))"
      by blast
    have "since w w' = evs" by (simp add: since_def t)
    with e c mem show ?thesis by simp
  qed
  have b: "appearsIn c ks"
    if "\<forall>n. tick w \<le> n \<and> n < tick w' \<longrightarrow> \<not> redisFails E n"
       "usageCounter w (key_id c) ?today < dailyLimit E"
       "errorCounter w (key_id c) ?today < 3"
    using collectKeys_complete[OF col that(1) c that(2,3)] mem by simp
  have d: "\<not> appearsIn c ks"
    if w: "w = afterCalls cs w0"
      and reached: "dailyLimit E \<le> usageCounter w0 (key_id c) ?today \<or> 3 \<le> errorCounter w0 (key_id c) ?today"
  proof
    assume "appearsIn c ks"
    from a[OF this] have lt: "usageCounter w (key_id c) ?today < dailyLimit E"
      "errorCounter w (key_id c) ?today < 3" by simp_all
    have "usageCounter w0 (key_id c) ?today \<le> usageCounter w (key_id c) ?today"
      "errorCounter w0 (key_id c) ?today \<le> errorCounter w (key_id c) ?today"
      unfolding w usageCounter_def errorCounter_def by (rule afterCalls_monotone)+
    with lt reached show False by linarith
  qed
  from a x b d show ?thesis by blast
qed

lemma flakyReadEnv_fields:
  "redisFails flakyReadEnv n = (n = 0)" "redisConnected flakyReadEnv n"
  "keys flakyReadEnv = demoKeys" "dateNow flakyReadEnv n = demoNow" "dailyLimit flakyReadEnv = 1000"
  by (simp_all add: flakyReadEnv_def demoEnv_def)

lemma flaky_selection:
  "fst (getAllAvailableKeys flakyReadEnv freshWorld) = Inr [withCounters demoKey2 0 0]"
  by (simp add: flakyReadEnv_fields freshWorld_def demoKeys_def demoToday selector_eval)

text \<open>
  C3, as stated: a credential appears in the list returned by the selector if and only if
  its usage counter is below DailyLimit and its error counter is below 3. Not so when the
  read of a counter fails: both counters of the first credential are 0, and the selector
  returns the second credential alone.
\<close>

theorem C3_failed_read_counterexample:
  "fst (getAllAvailableKeys flakyReadEnv freshWorld) = Inr [withCounters demoKey2 0 0] \<and>
   demoKey1 \<in> set (keys flakyReadEnv) \<and>
   usageCounter freshWorld (key_id demoKey1) ''2024-01-01'' < dailyLimit flakyReadEnv \<and>
   errorCounter freshWorld (key_id demoKey1) ''2024-01-01'' < 3 \<and>
   \<not> appearsIn demoKey1 [withCounters demoKey2 0 0]"
proof -
  have "demoKey1 \<noteq> demoKey2" by (simp add: demoKey1_def demoKey2_def)
  then have "\<not> appearsIn demoKey1 [withCounters demoKey2 0 0]"
    by (simp add: appearsIn_def truncate_withCounters)
  then show ?thesis
    by (simp add: flaky_selection flakyReadEnv_fields demoKeys_def usageCounter_def
        errorCounter_def freshWorld_fields orZero_def)
qed

lemma halfBlocked_run:
  "getWeatherData demoEnv demoParams halfBlockedWorld = (r, w1) \<Longrightarrow>
   r = Returns demoBody \<and>
   kv w1 = [''errors:key_1:2024-01-01'' \<mapsto> 3, ''usage:key_2:2024-01-01'' \<mapsto> 1] \<and>
   httpUrls (trace w1) = [buildApiUrl demoParams ''secret-two'']"
  by (auto simp add: pipeline_eval halfBlockedWorld_def demo_eval)

lemma halfBlocked_selection:
  "fst (getAllAvailableKeys demoEnv (afterCalls [(demoEnv, demoParams)] halfBlockedWorld)) =
     Inr [withCounters demoKey2 1 0]"
proof -
  obtain r w1 where g: "getWeatherData demoEnv demoParams halfBlockedWorld = (r, w1)" by force
  from halfBlocked_run[OF g]
  have k: "kv w1 = [''errors:key_1:2024-01-01'' \<mapsto> 3, ''usage:key_2:2024-01-01'' \<mapsto> 1]" by simp
  have "fst (getAllAvailableKeys demoEnv w1) = Inr [withCounters demoKey2 1 0]"
    by (simp add: demoEnv_fields demoKeys_def demoKey1_def demoKey2_def demoToday selector_eval k)
  with g show ?thesis by simp
qed

lemma flaky_selection_trace:
  "since freshWorld (snd (getAllAvailableKeys flakyReadEnv freshWorld)) =
     [RedisGet ''usage:key_1:2024-01-01'', RedisGet ''usage:key_2:2024-01-01'',
      RedisGet ''errors:key_2:2024-01-01'']"
  by (simp add: since_def flakyReadEnv_fields freshWorld_def demoKeys_def demoKey1_def demoKey2_def
      demoToday selector_eval)

theorem C3_selector_membership_witness:
  "fst (getAllAvailableKeys demoEnv skewedWorld) =
     Inr [withCounters demoKey1 5 0, withCounters demoKey2 0 0] \<and>
   demoKey1 \<in> set (keys demoEnv) \<and>
   tick skewedWorld = 0 \<and> tick (snd (getAllAvailableKeys demoEnv skewedWorld)) = 4 \<and>
   \<not> redisFails demoEnv 0 \<and> \<not> redisFails demoEnv 1 \<and>
   \<not> redisFails demoEnv 2 \<and> \<not> redisFails demoEnv 3 \<and>
   usageCounter skewedWorld (key_id demoKey1) ''2024-01-01'' < dailyLimit demoEnv \<and>
   errorCounter skewedWorld (key_id demoKey1) ''2024-01-01'' < 3 \<and>
   appearsIn demoKey1 [withCounters demoKey1 5 0, withCounters demoKey2 0 0] \<and>
   fst (getAllAvailableKeys flakyReadEnv freshWorld) = Inr [withCounters demoKey2 0 0] \<and>
   distinct (map key_id (keys flakyReadEnv)) \<and>
   failedRead flakyReadEnv 0 (since freshWorld (snd (getAllAvailableKeys flakyReadEnv freshWorld)))
     (usageKey (key_id demoKey1) ''2024-01-01'') \<and>
   \<not> failedRead flakyReadEnv 0 (since freshWorld (snd (getAllAvailableKeys flakyReadEnv freshWorld)))
     (usageKey (key_id demoKey2) ''2024-01-01'') \<and>
   \<not> failedRead flakyReadEnv 0 (since freshWorld (snd (getAllAvailableKeys flakyReadEnv freshWorld)))
     (errorKey (key_id demoKey2) ''2024-01-01'') \<and>
   appearsIn demoKey2 [withCounters demoKey2 0 0] \<and>
   \<not> appearsIn demoKey1 [withCounters demoKey2 0 0] \<and>
   fst (getAllAvailableKeys demoEnv (afterCalls [(demoEnv, demoParams)] halfBlockedWorld)) =
     Inr [withCounters demoKey2 1 0] \<and>
   3 \<le> errorCounter halfBlockedWorld (key_id demoKey1) ''2024-01-01'' \<and>
   \<not> appearsIn demoKey1 [withCounters demoKey2 1 0]"
proof -
  have run: "getAllAvailableKeys demoEnv skewedWorld =
     (Inr [withCounters demoKey1 5 0, withCounters demoKey2 0 0],
      snd (getAllAvailableKeys demoEnv skewedWorld))"
    using skewed_selection by (cases "getAllAvailableKeys demoEnv skewedWorld") simp
  have c: "demoKey1 \<in> set (keys demoEnv)" by (simp add: demoEnv_def demoKeys_def)
  have t: "getTodayString (dateNow demoEnv n) = ''2024-01-01''" for n
    by (simp add: demoEnv_fields demoToday)
  have nf: "\<forall>n. tick skewedWorld \<le> n \<and> n < tick (snd (getAllAvailableKeys demoEnv skewedWorld)) \<longrightarrow>
        \<not> redisFails demoEnv n" by (simp add: demoEnv_fields)
  have below: "usageCounter skewedWorld (key_id demoKey1) ''2024-01-01'' < dailyLimit demoEnv"
    "errorCounter skewedWorld (key_id demoKey1) ''2024-01-01'' < 3"
    by (simp_all add: usageCounter_def errorCounter_def skewedWorld_def freshWorld_def demoKey1_def
        usageKey_def errorKey_def orZero_def demoEnv_fields)
  note A = C3_selector_membership [OF run c, unfolded t]
  from A nf below have ap: "appearsIn demoKey1 [withCounters demoKey1 5 0, withCounters demoKey2 0 0]"
    by blast
  have run3: "getAllAvailableKeys flakyReadEnv freshWorld =
     (Inr [withCounters demoKey2 0 0], snd (getAllAvailableKeys flakyReadEnv freshWorld))"
    using flaky_selection by (cases "getAllAvailableKeys flakyReadEnv freshWorld") simp
  have c1: "demoKey1 \<in> set (keys flakyReadEnv)" and c2: "demoKey2 \<in> set (keys flakyReadEnv)"
    by (simp_all add: flakyReadEnv_fields demoKeys_def)
  have dist: "distinct (map key_id (keys flakyReadEnv))"
    by (simp add: flakyReadEnv_fields demoKeys_def demoKey1_def demoKey2_def)
  have t3: "getTodayString (dateNow flakyReadEnv n) = ''2024-01-01''" for n
    by (simp add: flakyReadEnv_fields demoToday)
  have z: "tick freshWorld = 0" by (simp add: freshWorld_fields)
  have fr: "failedRead flakyReadEnv 0 (since freshWorld (snd (getAllAvailableKeys flakyReadEnv freshWorld)))
       (usageKey (key_id demoKey1) ''2024-01-01'')"
    "\<not> failedRead flakyReadEnv 0 (since freshWorld (snd (getAllAvailableKeys flakyReadEnv freshWorld)))
       (usageKey (key_id demoKey2) ''2024-01-01'')"
    "\<not> failedRead flakyReadEnv 0 (since freshWorld (snd (getAllAvailableKeys flakyReadEnv freshWorld)))
       (errorKey (key_id demoKey2) ''2024-01-01'')"
    by (simp_all add: flaky_selection_trace flakyReadEnv_fields usageKey_def errorKey_def
        demoKey1_def demoKey2_def)
  have fresh0: "usageCounter freshWorld i d = 0" "errorCounter freshWorld i d = 0" for i d
    by (simp_all add: usageCounter_def errorCounter_def freshWorld_fields orZero_def)
  note C2 = C3_selector_membership [OF run3 c2, unfolded t3 z, THEN conjunct2, THEN conjunct1, rule_format, OF dist]
  note C1 = C3_selector_membership [OF run3 c1, unfolded t3 z, THEN conjunct2, THEN conjunct1, rule_format, OF dist]
  from C2 fr have ap2: "appearsIn demoKey2 [withCounters demoKey2 0 0]"
    by (simp add: fresh0 flakyReadEnv_fields)
  from C1 fr have nap1: "\<not> appearsIn demoKey1 [withCounters demoKey2 0 0]" by simp
  let ?w = "afterCalls [(demoEnv, demoParams)] halfBlockedWorld"
  have run2: "getAllAvailableKeys demoEnv ?w = (Inr [withCounters demoKey2 1 0], snd (getAllAvailableKeys demoEnv ?w))"
    using halfBlocked_selection by (cases "getAllAvailableKeys demoEnv ?w") simp
  have reached: "3 \<le> errorCounter halfBlockedWorld (key_id demoKey1) ''2024-01-01''"
    by (simp add: errorCounter_def halfBlockedWorld_def freshWorld_def demoKey1_def errorKey_def orZero_def)
  note B = C3_selector_membership [OF run2 c, unfolded t, where cs = "[(demoEnv, demoParams)]" and ?w0.0 = halfBlockedWorld]
  from B reached have ex: "\<not> appearsIn demoKey1 [withCounters demoKey2 1 0]" by blast
  have ticks: "tick skewedWorld = 0" "tick (snd (getAllAvailableKeys demoEnv skewedWorld)) = 4"
    by (simp_all add: demoEnv_fields skewedWorld_def freshWorld_def demoKeys_def demoKey1_def
        demoKey2_def demoToday selector_eval)
  have fails: "\<not> redisFails demoEnv 0" "\<not> redisFails demoEnv 1"
    "\<not> redisFails demoEnv 2" "\<not> redisFails demoEnv 3"
    by (simp_all add: demoEnv_fields)
  from skewed_selection c ticks fails below ap flaky_selection dist fr ap2 nap1
    halfBlocked_selection reached ex show ?thesis by blast
qed


section \<open>Cache hits\<close>







section \<open>No credential available\<close>

lemma blocked_collect:
  "\<forall>k \<in> set ks. dailyLimit E \<le> orZero (kv w (usageKey (key_id k) today)) \<or>
                  3 \<le> orZero (kv w (errorKey (key_id k) today)) \<Longrightarrow>
   fst (collectKeys E today ks w) = []"
proof (induction ks arbitrary: w)
  case Nil
  then show ?case by simp
next
  case (Cons k ks)
  let ?w1 = "emit (RedisGet (usageKey (key_id k) today)) w"
  let ?w2 = "emit (RedisGet (errorKey (key_id k) today)) ?w1"
  have k1: "kv ?w1 = kv w" "kv ?w2 = kv w" by (simp_all add: emit_def)
  have i1: "fst (collectKeys E today ks ?w1) = []" using Cons.prems by (intro Cons.IH) (simp add: k1)
  have i2: "fst (collectKeys E today ks ?w2) = []" using Cons.prems by (intro Cons.IH) (simp add: k1)
  have bk: "\<not> (orZero (kv w (usageKey (key_id k) today)) < dailyLimit E \<and>
                orZero (kv w (errorKey (key_id k) today)) < 3)"
    using Cons.prems by auto
  show ?case
    using i1 i2 bk
    by (auto simp: redis_get_def k1 split: prod.splits if_splits)
qed

lemma attempts_append:
  "attempts E p ck (as @ bs) le w =
     (case attempts E p ck as le w of
        (Inr d, w1) \<Rightarrow> (Inr d, w1)
      | (Inl le', w1) \<Rightarrow> attempts E p ck bs le' w1)"
proof (induction as arbitrary: le w)
  case Nil
  then show ?case by simp
next
  case (Cons a as)
  obtain r le' w1 where o: "attemptOnce E p ck le w = ((r, le'), w1)"
    by (cases "attemptOnce E p ck le w") auto
  show ?case
  proof (cases r)
    case None
    with o Cons.IH show ?thesis by simp
  next
    case (Some d)
    with o show ?thesis by simp
  qed
qed

lemma last_attempt_empty:
  assumes rc: "1 \<le> retryCount E"
    and earlier: "attempts E p ck [1..retryCount E - 1] None w = (Inl le, wl)"
    and empty: "fst (getAllAvailableKeys E wl) = Inr []"
  shows "fst (fetchWeatherFromAPI E p ck w) = Inl (Some (PlainError msg_allKeysLimited))"
proof -
  have "[1..retryCount E] = [1..retryCount E - 1] @ [retryCount E]"
    using rc by (simp add: upto_rec2)
  then have "fetchWeatherFromAPI E p ck w = attempts E p ck [retryCount E] le wl"
    using earlier by (simp add: fetchWeatherFromAPI_def attempts_append)
  moreover obtain w2 where "getAllAvailableKeys E wl = (Inr [], w2)"
    using empty by (cases "getAllAvailableKeys E wl") simp
  ultimately show ?thesis by (simp add: attemptOnce_def)
qed

lemma limit_status: "statusOfError (PlainError msg_allKeysLimited) = 429"
  by (simp add: statusOfError_def msg_allKeysLimited_def kw_limit_def)

lemma failurePayload_no_hint:
  "\<not> carriesRetryAfter (Response st [] (failurePayload m now rid rt))"
  by (simp add: failurePayload_def)

text \<open>
  C6, amended: when the request is authorised, the service is initialised, the request
  reaches the fetch (no truthy cached body, nothing pending for the fingerprint), and the
  selector finds no available credential in the last attempt (the attempts before it have
  all failed and left the state in which the selector then returns the empty list), the
  request fails with status 429; the response has no header, and its payload has the
  fields success, error, timestamp, requestId and responseTime, so it carries no
  retry-after hint.
\<close>

theorem C6_no_credentials_gives_429:
  assumes app: "expectedAppId E = Some (appid q)" "appid q \<noteq> []"
    and init: "initError E = None"
    and look: "cachedData E (generateCacheKey (weatherParams.truncate q)) (countRequest w) = (x, w1)"
    and nohit: "case x of None \<Rightarrow> True | Some d \<Rightarrow> \<not> truthy d"
    and np: "generateCacheKey (weatherParams.truncate q) \<notin> set (pendingRequests w)"
    and rc: "1 \<le> retryCount E"
    and earlier: "attempts E (weatherParams.truncate q) (generateCacheKey (weatherParams.truncate q))
                    [1..retryCount E - 1] None
                    (w1\<lparr>pendingRequests := generateCacheKey (weatherParams.truncate q) # pendingRequests w1\<rparr>)
                  = (Inl lastError, wl)"
    and empty: "fst (getAllAvailableKeys E wl) = Inr []"
  shows "(\<exists>now rt. fst (onecall E requestId q w) =
            Response 429 [] (failurePayload msg_allKeysLimited now requestId rt)) \<and>
         statusOf (fst (onecall E requestId q w)) = Some 429 \<and>
         \<not> carriesRetryAfter (fst (onecall E requestId q w))"
proof -
  let ?p = "weatherParams.truncate q"
  let ?ck = "generateCacheKey ?p"
  let ?w0 = "w1\<lparr>pendingRequests := ?ck # pendingRequests w1\<rparr>"
  from cachedData_frame[OF look] have p1: "pendingRequests w1 = pendingRequests w"
    by (simp add: countRequest_def)
  have f: "fst (fetchWeatherFromAPI E ?p ?ck ?w0) = Inl (Some (PlainError msg_allKeysLimited))"
    using rc earlier empty by (rule last_attempt_empty)
  obtain w2 where f1: "fetchWeatherFromAPI E ?p ?ck ?w0 = (Inl (Some (PlainError msg_allKeysLimited)), w2)"
    using f by (cases "fetchWeatherFromAPI E ?p ?ck ?w0") simp
  have np': "?ck \<notin> set (pendingRequests w1)" using np p1 by simp
  have om: "\<exists>w3. onMiss E ?p ?ck (dateNow E (tick w)) w1 = (Throws (Some (PlainError msg_allKeysLimited)), w3)"
    using np' f1 by (simp add: onMiss_def)
  obtain w3 where g: "getWeatherData E ?p w = (Throws (Some (PlainError msg_allKeysLimited)), w3)"
  proof (cases x)
    case None
    with init look om that show ?thesis by (auto simp: getWeatherData_def)
  next
    case (Some d)
    with nohit have "\<not> truthy d" by simp
    with Some init look om that show ?thesis by (auto simp: getWeatherData_def)
  qed
  have resp: "fst (onecall E requestId q w) =
      Response 429 [] (failurePayload msg_allKeysLimited (dateNow E (tick w3)) requestId
                         (dateNow E (tick w3) - dateNow E (tick w)))"
    using app g by (simp add: onecall_def onError_def limit_status)
  have a: "\<exists>now rt. fst (onecall E requestId q w) =
            Response 429 [] (failurePayload msg_allKeysLimited now requestId rt)"
    using resp by blast
  have b: "statusOf (fst (onecall E requestId q w)) = Some 429" by (simp add: resp)
  have c: "\<not> carriesRetryAfter (fst (onecall E requestId q w))"
    unfolding resp by (rule failurePayload_no_hint)
  from a b c show ?thesis by blast
qed


lemma blocked_run:
  "fst (onecall demoEnv ''req-1'' demoQuery blockedWorld) =
     Response 429 [] (failurePayload msg_allKeysLimited demoNow ''req-1'' 0)"
proof -
  have q: "weatherParams.truncate demoQuery = demoParams" "appid demoQuery = ''app-id''"
    by (simp_all add: demoQuery_def weatherParams.truncate_def weatherParams.extend_def
        query.fields_def demoParams_def)
  have l: "includesStr msg_allKeysLimited kw_limit"
    by (simp add: msg_allKeysLimited_def kw_limit_def)
  obtain r w' where g: "getWeatherData demoEnv demoParams blockedWorld = (r, w')" by force
  then have "r = Throws (Some (PlainError msg_allKeysLimited))"
    by (auto simp add: pipeline_eval blockedWorld_def demo_eval)
  with g show ?thesis
    by (simp add: onecall_def q demoEnv_fields onError_def statusOfError_def l)
qed

text \<open>
  C6, as stated: when the selector finds no available credential the request fails with
  429 and the response carries a retry-after hint. With both credentials at three errors
  the selector returns the empty list and the response is a 429 without any such hint.
\<close>

theorem C6_no_retry_after_counterexample:
  "fst (onecall demoEnv ''req-1'' demoQuery blockedWorld) =
     Response 429 [] (failurePayload msg_allKeysLimited demoNow ''req-1'' 0) \<and>
   fst (getAllAvailableKeys demoEnv blockedWorld) = Inr [] \<and>
   \<not> carriesRetryAfter (Response 429 [] (failurePayload msg_allKeysLimited demoNow ''req-1'' 0))"
proof -
  have "fst (getAllAvailableKeys demoEnv blockedWorld) = Inr []"
    by (simp add: demoEnv_fields blockedWorld_def freshWorld_def demoKeys_def demoKey1_def
        demoKey2_def demoToday selector_eval)
  then show ?thesis by (simp add: blocked_run failurePayload_def)
qed

lemma failingEnv_fields:
  "redisFails failingEnv n = False" "redisConnected failingEnv n"
  "keys failingEnv = demoKeys" "dateNow failingEnv n = demoNow" "dailyLimit failingEnv = 1000"
  "initError failingEnv = None" "cacheEnabled failingEnv" "retryCount failingEnv = 3"
  "retryDelay failingEnv = 1000" "stdTTL failingEnv = 300" "maxKeys failingEnv = 10000"
  "expectedAppId failingEnv = Some ''app-id''"
  "httpReply failingEnv n url = Inl (HttpError 500 (JStr ''upstream down''))"
  by (simp_all add: failingEnv_def demoEnv_def)

lemma upto2: "[1..2] = [1, (2::int)]" by (simp add: upto_rec1)

lemma strained_attempts:
  "attempts failingEnv demoParams ''weather:lat:39.9042:lon:116.4074:units:metric:lang:zh_cn'' [1, 2] None
     ((countRequest strainedWorld)\<lparr>pendingRequests :=
        [''weather:lat:39.9042:lon:116.4074:units:metric:lang:zh_cn'']\<rparr>) = (r, wl) \<Longrightarrow>
   r = Inl (Some (HttpError 500 (JStr ''upstream down''))) \<and>
   kv wl = [''errors:key_1:2024-01-01'' \<mapsto> 3, ''errors:key_2:2024-01-01'' \<mapsto> 3] \<and>
   length (httpUrls (trace wl)) = 4 \<and> length (trace wl) = 22"
  by (auto simp add: pipeline_eval failingEnv_fields strainedWorld_def freshWorld_def noStats_def
      demoKeys_def demoKey1_def demoKey2_def demoToday)

lemma demoQuery_fields:
  "weatherParams.truncate demoQuery = demoParams" "appid demoQuery = ''app-id''"
  by (simp_all add: demoQuery_def weatherParams.truncate_def weatherParams.extend_def
      query.fields_def demoParams_def)

theorem C6_no_credentials_gives_429_witness:
  "expectedAppId failingEnv = Some (appid demoQuery) \<and> appid demoQuery \<noteq> [] \<and>
   initError failingEnv = None \<and> (1::int) \<le> retryCount failingEnv \<and>
   cachedData failingEnv (generateCacheKey (weatherParams.truncate demoQuery)) (countRequest strainedWorld)
     = (None, countRequest strainedWorld) \<and>
   generateCacheKey (weatherParams.truncate demoQuery) \<notin> set (pendingRequests strainedWorld) \<and>
   fst (attempts failingEnv (weatherParams.truncate demoQuery)
          (generateCacheKey (weatherParams.truncate demoQuery)) [1..retryCount failingEnv - 1] None strainedStart)
     = Inl (Some (HttpError 500 (JStr ''upstream down''))) \<and>
   length (httpUrls (trace (snd (attempts failingEnv (weatherParams.truncate demoQuery)
          (generateCacheKey (weatherParams.truncate demoQuery)) [1..retryCount failingEnv - 1] None strainedStart)))) = 4 \<and>
   fst (getAllAvailableKeys failingEnv (snd (attempts failingEnv (weatherParams.truncate demoQuery)
          (generateCacheKey (weatherParams.truncate demoQuery)) [1..retryCount failingEnv - 1] None strainedStart)))
     = Inr [] \<and>
   statusOf (fst (onecall failingEnv ''req-2'' demoQuery strainedWorld)) = Some 429 \<and>
   \<not> carriesRetryAfter (fst (onecall failingEnv ''req-2'' demoQuery strainedWorld))"
proof -
  let ?ck = "generateCacheKey (weatherParams.truncate demoQuery)"
  let ?run = "attempts failingEnv (weatherParams.truncate demoQuery) ?ck [1..retryCount failingEnv - 1] None strainedStart"
  obtain r wl where run: "?run = (r, wl)" by force
  have ck: "?ck = ''weather:lat:39.9042:lon:116.4074:units:metric:lang:zh_cn''"
    by (simp add: demoQuery_fields demoFp)
  have st: "strainedStart = (countRequest strainedWorld)\<lparr>pendingRequests :=
        [''weather:lat:39.9042:lon:116.4074:units:metric:lang:zh_cn'']\<rparr>"
    by (simp add: strainedStart_def ck)
  have "attempts failingEnv demoParams ''weather:lat:39.9042:lon:116.4074:units:metric:lang:zh_cn'' [1, 2] None
     ((countRequest strainedWorld)\<lparr>pendingRequests :=
        [''weather:lat:39.9042:lon:116.4074:units:metric:lang:zh_cn'']\<rparr>) = (r, wl)"
    using run by (simp add: demoQuery_fields demoFp failingEnv_fields upto2 st)
  from strained_attempts[OF this]
  have r: "r = Inl (Some (HttpError 500 (JStr ''upstream down'')))"
    and kvl: "kv wl = [''errors:key_1:2024-01-01'' \<mapsto> 3, ''errors:key_2:2024-01-01'' \<mapsto> 3]"
    and calls: "length (httpUrls (trace wl)) = 4" by simp_all
  have app: "expectedAppId failingEnv = Some (appid demoQuery)" "appid demoQuery \<noteq> []"
    by (simp_all add: demoQuery_fields failingEnv_fields)
  have rc: "1 \<le> retryCount failingEnv" by (simp add: failingEnv_fields)
  have look: "cachedData failingEnv ?ck (countRequest strainedWorld) = (None, countRequest strainedWorld)"
    by (simp add: cachedData_def cache_get_def countRequest_def strainedWorld_def freshWorld_def
        failingEnv_fields)
  have nohit: "case None :: json option of None \<Rightarrow> True | Some d \<Rightarrow> \<not> truthy d" by simp
  have np: "?ck \<notin> set (pendingRequests strainedWorld)"
    by (simp add: strainedWorld_def freshWorld_def)
  have earlier: "attempts failingEnv (weatherParams.truncate demoQuery) ?ck [1..retryCount failingEnv - 1] None
      ((countRequest strainedWorld)\<lparr>pendingRequests := ?ck # pendingRequests (countRequest strainedWorld)\<rparr>)
      = (Inl (Some (HttpError 500 (JStr ''upstream down''))), wl)"
    using run r by (simp add: strainedStart_def countRequest_def strainedWorld_def freshWorld_def)
  have "fst (collectKeys failingEnv (getTodayString (dateNow failingEnv (tick wl))) (keys failingEnv) wl) = []"
    by (rule blocked_collect)
      (simp add: failingEnv_fields demoKeys_def demoKey1_def demoKey2_def demoToday kvl errorKey_def orZero_def)
  then have empty: "fst (getAllAvailableKeys failingEnv wl) = Inr []"
    by (cases "collectKeys failingEnv (getTodayString (dateNow failingEnv (tick wl))) (keys failingEnv) wl")
      (simp add: getAllAvailableKeys_def failingEnv_fields sortBy_def)
  note inst = C6_no_credentials_gives_429 [OF app failingEnv_fields(6) look nohit np rc earlier empty, of "''req-2''"]
  from inst app rc look np r calls empty run show ?thesis
    by (simp add: failingEnv_fields)
qed


section \<open>The client's appid\<close>

lemma query_eqI:
  "weatherParams.truncate q = weatherParams.truncate q' \<Longrightarrow> appid q = appid q' \<Longrightarrow> q = (q' :: query)"
  by (cases q; cases q') (simp add: weatherParams.truncate_def)

lemma truncate_appid_update:
  "weatherParams.truncate (q\<lparr>appid := a\<rparr>) = weatherParams.truncate (q :: query)"
  by (cases q) (simp add: weatherParams.truncate_def)

lemma onecall_urls:
  assumes "onecall E requestId q w = (resp, w')"
  shows "set (httpUrls (since w w')) \<subseteq>
           set (map (\<lambda>k. buildApiUrl (weatherParams.truncate q) (key k)) (keys E))"
proof -
  obtain r w1 where g: "getWeatherData E (weatherParams.truncate q) w = (r, w1)" by force
  from getWeatherData_progress[OF g] obtain evs where
    e: "trace w1 = trace w @ evs"
       "set (httpUrls evs) \<subseteq> set (map (\<lambda>k. buildApiUrl (weatherParams.truncate q) (key k)) (keys E))"
    by blast
  have "w' = w \<or> w' = w1"
    using assms g by (auto simp: onecall_def split: if_splits result.splits)
  then show ?thesis
  proof
    assume "w' = w"
    then show ?thesis by (simp add: since_def)
  next
    assume "w' = w1"
    with e show ?thesis by (simp add: since_def)
  qed
qed

text \<open>
  C10: the client's \<open>appid\<close> is dropped before the parameters reach the service, so the
  parameters, the fingerprint and the upstream URL are the same whatever its value; two
  queries that differ only in \<open>appid\<close> and fare alike in the comparison with
  \<open>APP_ID_KEY\<close> get the same response and leave the same state; every upstream URL
  requested while serving a query is built from the stripped parameters and the secret of
  a configured credential, which is the value of its \<open>appid\<close> parameter.
\<close>

theorem C10_client_appid_only_compared:
  fixes q q' :: query
  shows "weatherParams.truncate (q\<lparr>appid := a\<rparr>) = weatherParams.truncate q \<and>
   generateCacheKey (weatherParams.truncate (q\<lparr>appid := a\<rparr>)) = generateCacheKey (weatherParams.truncate q) \<and>
   buildApiUrl (weatherParams.truncate (q\<lparr>appid := a\<rparr>)) secret =
     buildApiUrl (weatherParams.truncate q) secret \<and>
   (weatherParams.truncate q = weatherParams.truncate q' \<longrightarrow>
      (Some (appid q) = expectedAppId E) = (Some (appid q') = expectedAppId E) \<longrightarrow>
      onecall E requestId q w = onecall E requestId q' w) \<and>
   (onecall E requestId q w = (resp, w') \<longrightarrow>
      set (httpUrls (since w w')) \<subseteq>
        set (map (\<lambda>k. buildApiUrl (weatherParams.truncate q) (key k)) (keys E))) \<and>
   buildApiUrl (weatherParams.truncate q) secret =
     baseUrl @ ''?lat='' @ urlEncode (lat q) @ ''&lon='' @ urlEncode (lon q) @
     ''&appid='' @ urlEncode secret @
     optParam ''exclude'' (exclude q) @ optParam ''units'' (units q) @ optParam ''lang'' (lang q)"
proof (intro conjI impI)
  show t: "weatherParams.truncate (q\<lparr>appid := a\<rparr>) = weatherParams.truncate q"
    by (rule truncate_appid_update)
  show "generateCacheKey (weatherParams.truncate (q\<lparr>appid := a\<rparr>)) = generateCacheKey (weatherParams.truncate q)"
    by (simp only: t)
  show "buildApiUrl (weatherParams.truncate (q\<lparr>appid := a\<rparr>)) secret =
     buildApiUrl (weatherParams.truncate q) secret"
    by (simp only: t)
next
  assume tr: "weatherParams.truncate q = weatherParams.truncate q'"
    and same: "(Some (appid q) = expectedAppId E) = (Some (appid q') = expectedAppId E)"
  show "onecall E requestId q w = onecall E requestId q' w"
  proof (cases "Some (appid q) = expectedAppId E")
    case True
    with same have "appid q = appid q'" by (metis option.inject)
    with tr have "q = q'" by (rule query_eqI)
    then show ?thesis by simp
  next
    case False
    with same have "Some (appid q') \<noteq> expectedAppId E" by simp
    with False show ?thesis by (simp add: onecall_def)
  qed
next
  assume "onecall E requestId q w = (resp, w')"
  then show "set (httpUrls (since w w')) \<subseteq>
        set (map (\<lambda>k. buildApiUrl (weatherParams.truncate q) (key k)) (keys E))"
    by (rule onecall_urls)
next
  show "buildApiUrl (weatherParams.truncate q) secret =
     baseUrl @ ''?lat='' @ urlEncode (lat q) @ ''&lon='' @ urlEncode (lon q) @
     ''&appid='' @ urlEncode secret @
     optParam ''exclude'' (exclude q) @ optParam ''units'' (units q) @ optParam ''lang'' (lang q)"
    by (cases q) (simp add: buildApiUrl_def weatherParams.truncate_def)
qed

theorem C10_client_appid_only_compared_witness:
  "weatherParams.truncate otherQuery = weatherParams.truncate thirdQuery \<and>
   (Some (appid otherQuery) = expectedAppId demoEnv) = (Some (appid thirdQuery) = expectedAppId demoEnv) \<and>
   onecall demoEnv ''req-1'' otherQuery freshWorld = onecall demoEnv ''req-1'' thirdQuery freshWorld \<and>
   onecall demoEnv ''req-1'' demoQuery freshWorld =
     (fst (onecall demoEnv ''req-1'' demoQuery freshWorld),
      snd (onecall demoEnv ''req-1'' demoQuery freshWorld)) \<and>
   set (httpUrls (since freshWorld (snd (onecall demoEnv ''req-1'' demoQuery freshWorld)))) \<subseteq>
     set (map (\<lambda>k. buildApiUrl (weatherParams.truncate demoQuery) (key k)) (keys demoEnv))"
proof -
  have tr: "weatherParams.truncate otherQuery = weatherParams.truncate thirdQuery"
    by (simp add: otherQuery_def thirdQuery_def truncate_appid_update)
  have ap: "appid otherQuery = ''guess''" "appid thirdQuery = ''another guess''"
    by (simp_all add: otherQuery_def thirdQuery_def)
  have same: "(Some (appid otherQuery) = expectedAppId demoEnv) = (Some (appid thirdQuery) = expectedAppId demoEnv)"
    by (simp add: ap demoEnv_fields)
  have run: "onecall demoEnv ''req-1'' demoQuery freshWorld =
     (fst (onecall demoEnv ''req-1'' demoQuery freshWorld),
      snd (onecall demoEnv ''req-1'' demoQuery freshWorld))" by simp
  note inst1 = C10_client_appid_only_compared [where q = otherQuery and q' = thirdQuery and E = demoEnv
      and requestId = "''req-1''" and w = freshWorld]
  note inst2 = C10_client_appid_only_compared [where q = demoQuery and E = demoEnv
      and requestId = "''req-1''" and w = freshWorld
      and resp = "fst (onecall demoEnv ''req-1'' demoQuery freshWorld)"
      and w' = "snd (onecall demoEnv ''req-1'' demoQuery freshWorld)"]
  from inst1 tr same have "onecall demoEnv ''req-1'' otherQuery freshWorld = onecall demoEnv ''req-1'' thirdQuery freshWorld"
    by blast
  moreover from inst2 run have "set (httpUrls (since freshWorld (snd (onecall demoEnv ''req-1'' demoQuery freshWorld)))) \<subseteq>
     set (map (\<lambda>k. buildApiUrl (weatherParams.truncate demoQuery) (key k)) (keys demoEnv))"
    by blast
  ultimately show ?thesis using tr same run by blast
qed


section \<open>Single flight\<close>

lemma getWeatherData_cut:
  "getWeatherData E params w =
     (case afterInit E params (dateNow E (tick w)) (countRequest w) of
        (Ends r, w1) \<Rightarrow> (r, w1)
      | (Starts cacheKey, w1) \<Rightarrow>
          (case fetchWeatherFromAPI E params cacheKey w1 of
             (out, w2) \<Rightarrow> ownerResumes E cacheKey (dateNow E (tick w)) out w2))"
  by (auto simp: getWeatherData_def afterInit_def onMiss_def joinOrStart_def ownerResumes_def
      countRequest_def tick_def
      split: option.splits prod.splits sum.splits)

lemma afterInit_Ends:
  assumes "afterInit E params st w = (Ends r, w1)"
  shows "pendingRequests w1 = pendingRequests w" "trace w1 = trace w" "kv w1 = kv w"
    "r = AwaitsPending fp \<Longrightarrow> fp = generateCacheKey params"
    "r = AwaitsPending fp \<Longrightarrow> generateCacheKey params \<in> set (pendingRequests w)"
  using assms
  by (auto simp: afterInit_def joinOrStart_def updateResponseTime_def countError_def countCacheHit_def
      split: option.splits prod.splits if_splits dest!: cachedData_frame)

lemma afterInit_Starts:
  assumes "afterInit E params st w = (Starts fp, w1)"
  shows "fp = generateCacheKey params" "generateCacheKey params \<notin> set (pendingRequests w)"
    "pendingRequests w1 = generateCacheKey params # pendingRequests w" "trace w1 = trace w"
  using assms
  by (auto simp: afterInit_def joinOrStart_def
      split: option.splits prod.splits if_splits dest!: cachedData_frame)

lemma afterInit_pending:
  assumes "generateCacheKey params \<in> set (pendingRequests w)"
  shows "\<exists>r w1. afterInit E params st w = (Ends r, w1)"
  using assms
  by (auto simp: afterInit_def joinOrStart_def split: option.splits prod.splits dest!: cachedData_frame)

lemma ownerResumes_result:
  "ownerResumes E ck st out w = (r, w1) \<Longrightarrow>
   r = resultOf out \<and> pendingRequests w1 = removeAll ck (pendingRequests w)"
  by (auto simp: ownerResumes_def resultOf_def updateResponseTime_def countError_def split: sum.splits)

lemma waiterResumes_result:
  "waiterResumes E st out w = (r, w1) \<Longrightarrow> r = resultOf out \<and> pendingRequests w1 = pendingRequests w"
  by (auto simp: waiterResumes_def resultOf_def updateResponseTime_def countError_def split: sum.splits)


lemma consistentD:
  assumes "consistent s"
  shows "(fp \<in> set (pendingRequests (shared s))) = (registered s fp \<noteq> None)"
    and "promises s pr = Some (InFlight fp) \<Longrightarrow> registered s fp = Some pr"
    and "registered s fp = Some pr \<Longrightarrow> \<exists>q. promises s pr = Some q \<and> promiseFor q = fp"
    and "calls s c = Some (AwaitsOwn pr params st) \<Longrightarrow> registered s (generateCacheKey params) = Some pr"
    and "initiates s c pr params \<Longrightarrow> \<exists>q. promises s pr = Some q \<and> promiseFor q = generateCacheKey params"
    and "initiates s c pr params \<Longrightarrow> initiates s c' pr params' \<Longrightarrow> c = c'"
    and "promises s pr \<noteq> None \<Longrightarrow> \<exists>c params. initiates s c pr params"
    and "calls s c = Some (AwaitsOther pr params st) \<Longrightarrow>
           \<exists>q. promises s pr = Some q \<and> promiseFor q = generateCacheKey params"
    and "calls s c = Some (Finished (Initiator pr) params r) \<or>
         calls s c = Some (Finished (Waiter pr) params r) \<Longrightarrow>
           \<exists>out. promises s pr = Some (Settled (generateCacheKey params) out) \<and> r = resultOf out"
proof -
  note a = assms [unfolded consistent_def]
  note c2 = a [THEN conjunct2]
  note c3 = c2 [THEN conjunct2]
  note c4 = c3 [THEN conjunct2]
  note c5 = c4 [THEN conjunct2]
  note c6 = c5 [THEN conjunct2]
  note c7 = c6 [THEN conjunct2]
  note c8 = c7 [THEN conjunct2]
  note c9 = c8 [THEN conjunct2]
  show "(fp \<in> set (pendingRequests (shared s))) = (registered s fp \<noteq> None)"
    by (rule a [THEN conjunct1, rule_format])
  show "promises s pr = Some (InFlight fp) \<Longrightarrow> registered s fp = Some pr"
    by (rule c2 [THEN conjunct1, rule_format])
  show "registered s fp = Some pr \<Longrightarrow> \<exists>q. promises s pr = Some q \<and> promiseFor q = fp"
    by (rule c3 [THEN conjunct1, rule_format])
  show "calls s c = Some (AwaitsOwn pr params st) \<Longrightarrow> registered s (generateCacheKey params) = Some pr"
    by (rule c4 [THEN conjunct1, rule_format])
  show "initiates s c pr params \<Longrightarrow> \<exists>q. promises s pr = Some q \<and> promiseFor q = generateCacheKey params"
    by (rule c5 [THEN conjunct1, rule_format])
  show "initiates s c pr params \<Longrightarrow> initiates s c' pr params' \<Longrightarrow> c = c'"
    by (rule c6 [THEN conjunct1, rule_format])
  show "promises s pr \<noteq> None \<Longrightarrow> \<exists>c params. initiates s c pr params"
    by (rule c7 [THEN conjunct1, rule_format])
  show "calls s c = Some (AwaitsOther pr params st) \<Longrightarrow>
           \<exists>q. promises s pr = Some q \<and> promiseFor q = generateCacheKey params"
    by (rule c8 [THEN conjunct1, rule_format])
  show "calls s c = Some (Finished (Initiator pr) params r) \<or>
         calls s c = Some (Finished (Waiter pr) params r) \<Longrightarrow>
           \<exists>out. promises s pr = Some (Settled (generateCacheKey params) out) \<and> r = resultOf out"
    by (rule c9 [rule_format])
qed

lemma consistentI:
  assumes "\<And>fp. (fp \<in> set (pendingRequests (shared s))) = (registered s fp \<noteq> None)"
    and "\<And>pr fp. promises s pr = Some (InFlight fp) \<Longrightarrow> registered s fp = Some pr"
    and "\<And>fp pr. registered s fp = Some pr \<Longrightarrow> \<exists>q. promises s pr = Some q \<and> promiseFor q = fp"
    and "\<And>c pr params st. calls s c = Some (AwaitsOwn pr params st) \<Longrightarrow>
           registered s (generateCacheKey params) = Some pr"
    and "\<And>c pr params. initiates s c pr params \<Longrightarrow>
           \<exists>q. promises s pr = Some q \<and> promiseFor q = generateCacheKey params"
    and "\<And>c c' pr params params'. initiates s c pr params \<Longrightarrow> initiates s c' pr params' \<Longrightarrow> c = c'"
    and "\<And>pr. promises s pr \<noteq> None \<Longrightarrow> \<exists>c params. initiates s c pr params"
    and "\<And>c pr params st. calls s c = Some (AwaitsOther pr params st) \<Longrightarrow>
           \<exists>q. promises s pr = Some q \<and> promiseFor q = generateCacheKey params"
    and "\<And>c pr params r. calls s c = Some (Finished (Initiator pr) params r) \<or>
         calls s c = Some (Finished (Waiter pr) params r) \<Longrightarrow>
           \<exists>out. promises s pr = Some (Settled (generateCacheKey params) out) \<and> r = resultOf out"
  shows "consistent s"
  unfolding consistent_def
  by (intro conjI allI impI) (fact assms | erule assms | (erule assms, assumption))+

lemma consistent_start:
  "pendingRequests w = [] \<Longrightarrow>
   consistent \<lparr>shared = w, registered = Map.empty, promises = Map.empty, calls = Map.empty\<rparr>"
  by (simp add: consistent_def initiates_def)

text \<open>A call that is replaced by a state in which it initiates nothing.\<close>

lemma initiates_upd_other:
  assumes "\<And>pr params. \<not> initiates s c pr params"
    and "\<And>pr params st. v \<noteq> AwaitsOwn pr params st"
    and "\<And>pr params r. v \<noteq> Finished (Initiator pr) params r"
  shows "initiates (s\<lparr>calls := (calls s)(c \<mapsto> v)\<rparr>) c' pr params = initiates s c' pr params"
  using assms unfolding initiates_def by (cases "c' = c") auto


lemma consistent_proceeds:
  assumes "consistent s" "pendingRequests w' = pendingRequests (shared s)"
  shows "consistent (s\<lparr>shared := w'\<rparr>)"
  using assms unfolding consistent_def initiates_def by simp

lemma consistent_inert:
  assumes cons: "consistent s"
    and old: "calls s c = None \<or> (\<exists>p st. calls s c = Some (Entered p st))"
    and new: "v = Entered p' st' \<or> v = Finished Alone p' r'"
    and pend: "pendingRequests w' = pendingRequests (shared s)"
  shows "consistent (s\<lparr>shared := w', calls := (calls s)(c \<mapsto> v)\<rparr>)"
proof -
  let ?s' = "s\<lparr>shared := w', calls := (calls s)(c \<mapsto> v)\<rparr>"
  note D = consistentD[OF cons]
  have ini: "initiates ?s' c' pr ps = initiates s c' pr ps" for c' pr ps
    using old new unfolding initiates_def by (cases "c' = c") auto
  have own: "(calls ?s' c' = Some (AwaitsOwn pr ps st)) = (calls s c' = Some (AwaitsOwn pr ps st))" for c' pr ps st
    using old new by (cases "c' = c") auto
  have oth: "(calls ?s' c' = Some (AwaitsOther pr ps st)) = (calls s c' = Some (AwaitsOther pr ps st))" for c' pr ps st
    using old new by (cases "c' = c") auto
  have fin: "(calls ?s' c' = Some (Finished (Initiator pr) ps r)) = (calls s c' = Some (Finished (Initiator pr) ps r))"
    "(calls ?s' c' = Some (Finished (Waiter pr) ps r)) = (calls s c' = Some (Finished (Waiter pr) ps r))" for c' pr ps r
    using old new by (cases "c' = c"; auto)+
  show ?thesis
  proof (rule consistentI)
    show "(fp \<in> set (pendingRequests (shared ?s'))) = (registered ?s' fp \<noteq> None)" for fp
      using D(1)[of fp] pend by simp
    show "registered ?s' fp = Some pr" if "promises ?s' pr = Some (InFlight fp)" for pr fp
      using that D(2)[of pr fp] by simp
    show "\<exists>q. promises ?s' pr = Some q \<and> promiseFor q = fp" if "registered ?s' fp = Some pr" for fp pr
      using that D(3)[of fp pr] by simp
    show "registered ?s' (generateCacheKey ps) = Some pr" if "calls ?s' c' = Some (AwaitsOwn pr ps st)" for c' pr ps st
      using that[unfolded own] D(4) by simp
    show "\<exists>q. promises ?s' pr = Some q \<and> promiseFor q = generateCacheKey ps" if "initiates ?s' c' pr ps" for c' pr ps
      using that[unfolded ini] D(5) by simp
    show "c1 = c2" if "initiates ?s' c1 pr ps" "initiates ?s' c2 pr ps'" for c1 c2 pr ps ps'
      using that[unfolded ini] by (rule D(6))
    show "\<exists>c' ps. initiates ?s' c' pr ps" if "promises ?s' pr \<noteq> None" for pr
      using that D(7)[of pr] unfolding ini by simp
    show "\<exists>q. promises ?s' pr = Some q \<and> promiseFor q = generateCacheKey ps"
      if "calls ?s' c' = Some (AwaitsOther pr ps st)" for c' pr ps st
      using that[unfolded oth] D(8) by simp
    show "\<exists>out. promises ?s' pr = Some (Settled (generateCacheKey ps) out) \<and> r = resultOf out"
      if "calls ?s' c' = Some (Finished (Initiator pr) ps r) \<or> calls ?s' c' = Some (Finished (Waiter pr) ps r)"
      for c' pr ps r
      using that[unfolded fin] D(9)[of c' pr ps r] by simp
  qed
qed


lemma consistent_joins:
  assumes cons: "consistent s"
    and old: "calls s c = Some (Entered params st)"
    and pend: "pendingRequests w' = pendingRequests (shared s)"
    and reg: "registered s (generateCacheKey params) = Some pr"
  shows "consistent (s\<lparr>shared := w', calls := (calls s)(c \<mapsto> AwaitsOther pr params st)\<rparr>)"
proof -
  let ?s' = "s\<lparr>shared := w', calls := (calls s)(c \<mapsto> AwaitsOther pr params st)\<rparr>"
  note D = consistentD[OF cons]
  have ini: "initiates ?s' c' pr' ps = initiates s c' pr' ps" for c' pr' ps
    using old unfolding initiates_def by (cases "c' = c") auto
  have own: "(calls ?s' c' = Some (AwaitsOwn pr' ps st')) = (calls s c' = Some (AwaitsOwn pr' ps st'))" for c' pr' ps st'
    using old by (cases "c' = c") auto
  have fin: "(calls ?s' c' = Some (Finished (Initiator pr') ps r)) = (calls s c' = Some (Finished (Initiator pr') ps r))"
    "(calls ?s' c' = Some (Finished (Waiter pr') ps r)) = (calls s c' = Some (Finished (Waiter pr') ps r))" for c' pr' ps r
    using old by (cases "c' = c"; auto)+
  show ?thesis
  proof (rule consistentI)
    show "(fp \<in> set (pendingRequests (shared ?s'))) = (registered ?s' fp \<noteq> None)" for fp
      using D(1)[of fp] pend by simp
    show "registered ?s' fp = Some pr'" if "promises ?s' pr' = Some (InFlight fp)" for pr' fp
      using that D(2)[of pr' fp] by simp
    show "\<exists>q. promises ?s' pr' = Some q \<and> promiseFor q = fp" if "registered ?s' fp = Some pr'" for fp pr'
      using that D(3)[of fp pr'] by simp
    show "registered ?s' (generateCacheKey ps) = Some pr'" if "calls ?s' c' = Some (AwaitsOwn pr' ps st')" for c' pr' ps st'
      using that[unfolded own] D(4) by simp
    show "\<exists>q. promises ?s' pr' = Some q \<and> promiseFor q = generateCacheKey ps" if "initiates ?s' c' pr' ps" for c' pr' ps
      using that[unfolded ini] D(5) by simp
    show "c1 = c2" if "initiates ?s' c1 pr' ps" "initiates ?s' c2 pr' ps'" for c1 c2 pr' ps ps'
      using that[unfolded ini] by (rule D(6))
    show "\<exists>c' ps. initiates ?s' c' pr' ps" if "promises ?s' pr' \<noteq> None" for pr'
      using that D(7)[of pr'] unfolding ini by simp
    show "\<exists>q. promises ?s' pr' = Some q \<and> promiseFor q = generateCacheKey ps"
      if a: "calls ?s' c' = Some (AwaitsOther pr' ps st')" for c' pr' ps st'
    proof (cases "c' = c")
      case True
      with a have "pr' = pr" "ps = params" by simp_all
      with D(3)[OF reg] show ?thesis by simp
    next
      case False
      with a have "calls s c' = Some (AwaitsOther pr' ps st')" by simp
      from D(8)[OF this] show ?thesis by simp
    qed
    show "\<exists>out. promises ?s' pr' = Some (Settled (generateCacheKey ps) out) \<and> r = resultOf out"
      if "calls ?s' c' = Some (Finished (Initiator pr') ps r) \<or> calls ?s' c' = Some (Finished (Waiter pr') ps r)"
      for c' pr' ps r
      using that[unfolded fin] D(9)[of c' pr' ps r] by simp
  qed
qed

lemma consistent_waiterResumed:
  assumes cons: "consistent s"
    and old: "calls s c = Some (AwaitsOther pr params st)"
    and pend: "pendingRequests w' = pendingRequests (shared s)"
    and settled: "promises s pr = Some (Settled fp out)"
  shows "consistent (s\<lparr>shared := w', calls := (calls s)(c \<mapsto> Finished (Waiter pr) params (resultOf out))\<rparr>)"
proof -
  let ?s' = "s\<lparr>shared := w', calls := (calls s)(c \<mapsto> Finished (Waiter pr) params (resultOf out))\<rparr>"
  note D = consistentD[OF cons]
  from D(8)[OF old] settled have fp: "fp = generateCacheKey params" by simp
  have ini: "initiates ?s' c' pr' ps = initiates s c' pr' ps" for c' pr' ps
    using old unfolding initiates_def by (cases "c' = c") auto
  have own: "(calls ?s' c' = Some (AwaitsOwn pr' ps st')) = (calls s c' = Some (AwaitsOwn pr' ps st'))" for c' pr' ps st'
    using old by (cases "c' = c") auto
  show ?thesis
  proof (rule consistentI)
    show "(fp \<in> set (pendingRequests (shared ?s'))) = (registered ?s' fp \<noteq> None)" for fp
      using D(1)[of fp] pend by simp
    show "registered ?s' fp = Some pr'" if "promises ?s' pr' = Some (InFlight fp)" for pr' fp
      using that D(2)[of pr' fp] by simp
    show "\<exists>q. promises ?s' pr' = Some q \<and> promiseFor q = fp" if "registered ?s' fp = Some pr'" for fp pr'
      using that D(3)[of fp pr'] by simp
    show "registered ?s' (generateCacheKey ps) = Some pr'" if "calls ?s' c' = Some (AwaitsOwn pr' ps st')" for c' pr' ps st'
      using that[unfolded own] D(4) by simp
    show "\<exists>q. promises ?s' pr' = Some q \<and> promiseFor q = generateCacheKey ps" if "initiates ?s' c' pr' ps" for c' pr' ps
      using that[unfolded ini] D(5) by simp
    show "c1 = c2" if "initiates ?s' c1 pr' ps" "initiates ?s' c2 pr' ps'" for c1 c2 pr' ps ps'
      using that[unfolded ini] by (rule D(6))
    show "\<exists>c' ps. initiates ?s' c' pr' ps" if "promises ?s' pr' \<noteq> None" for pr'
      using that D(7)[of pr'] unfolding ini by simp
    show "\<exists>q. promises ?s' pr' = Some q \<and> promiseFor q = generateCacheKey ps"
      if a: "calls ?s' c' = Some (AwaitsOther pr' ps st')" for c' pr' ps st'
    proof -
      from a have "c' \<noteq> c" by auto
      with a have "calls s c' = Some (AwaitsOther pr' ps st')" by simp
      from D(8)[OF this] show ?thesis by simp
    qed
    show "\<exists>out'. promises ?s' pr' = Some (Settled (generateCacheKey ps) out') \<and> r = resultOf out'"
      if a: "calls ?s' c' = Some (Finished (Initiator pr') ps r) \<or> calls ?s' c' = Some (Finished (Waiter pr') ps r)"
      for c' pr' ps r
    proof (cases "c' = c")
      case True
      with a have "pr' = pr" "ps = params" "r = resultOf out" by auto
      with settled fp show ?thesis by simp
    next
      case False
      with a have "calls s c' = Some (Finished (Initiator pr') ps r) \<or> calls s c' = Some (Finished (Waiter pr') ps r)"
        by simp
      from D(9)[OF this] show ?thesis by simp
    qed
  qed
qed

lemma consistent_settles:
  assumes cons: "consistent s"
    and fl: "promises s pr = Some (InFlight fp)"
  shows "consistent (s\<lparr>promises := (promises s)(pr \<mapsto> Settled fp out)\<rparr>)"
proof -
  let ?s' = "s\<lparr>promises := (promises s)(pr \<mapsto> Settled fp out)\<rparr>"
  note D = consistentD[OF cons]
  have ini: "initiates ?s' c' pr' ps = initiates s c' pr' ps" for c' pr' ps
    unfolding initiates_def by simp
  have pf: "\<exists>q. promises ?s' pr' = Some q \<and> promiseFor q = x"
    if "\<exists>q. promises s pr' = Some q \<and> promiseFor q = x" for pr' x
    using that fl by (cases "pr' = pr") auto
  show ?thesis
  proof (rule consistentI)
    show "(fp \<in> set (pendingRequests (shared ?s'))) = (registered ?s' fp \<noteq> None)" for fp
      using D(1)[of fp] by simp
    show "registered ?s' fp' = Some pr'" if "promises ?s' pr' = Some (InFlight fp')" for pr' fp'
      using that D(2)[of pr' fp'] by (cases "pr' = pr") simp_all
    show "\<exists>q. promises ?s' pr' = Some q \<and> promiseFor q = fp'" if "registered ?s' fp' = Some pr'" for fp' pr'
      using that D(3)[of fp' pr'] by (intro pf) simp
    show "registered ?s' (generateCacheKey ps) = Some pr'" if "calls ?s' c' = Some (AwaitsOwn pr' ps st')" for c' pr' ps st'
      using that D(4)[of c' pr' ps st'] by simp
    show "\<exists>q. promises ?s' pr' = Some q \<and> promiseFor q = generateCacheKey ps" if "initiates ?s' c' pr' ps" for c' pr' ps
      using that[unfolded ini] D(5) by (intro pf) simp
    show "c1 = c2" if "initiates ?s' c1 pr' ps" "initiates ?s' c2 pr' ps'" for c1 c2 pr' ps ps'
      using that[unfolded ini] by (rule D(6))
    show "\<exists>c' ps. initiates ?s' c' pr' ps" if "promises ?s' pr' \<noteq> None" for pr'
    proof -
      from that fl have "promises s pr' \<noteq> None" by (cases "pr' = pr") auto
      from D(7)[OF this] show ?thesis unfolding ini .
    qed
    show "\<exists>q. promises ?s' pr' = Some q \<and> promiseFor q = generateCacheKey ps"
      if "calls ?s' c' = Some (AwaitsOther pr' ps st')" for c' pr' ps st'
      using that D(8)[of c' pr' ps st'] by (intro pf) simp
    show "\<exists>out'. promises ?s' pr' = Some (Settled (generateCacheKey ps) out') \<and> r = resultOf out'"
      if a: "calls ?s' c' = Some (Finished (Initiator pr') ps r) \<or> calls ?s' c' = Some (Finished (Waiter pr') ps r)"
      for c' pr' ps r
    proof -
      from a have "calls s c' = Some (Finished (Initiator pr') ps r) \<or> calls s c' = Some (Finished (Waiter pr') ps r)"
        by simp
      from D(9)[OF this] obtain out' where o: "promises s pr' = Some (Settled (generateCacheKey ps) out')" "r = resultOf out'"
        by blast
      with fl have "pr' \<noteq> pr" by auto
      with o show ?thesis by simp
    qed
  qed
qed


lemma consistent_starts:
  assumes cons: "consistent s"
    and old: "calls s c = Some (Entered params st)"
    and np: "generateCacheKey params \<notin> set (pendingRequests (shared s))"
    and pend: "pendingRequests w' = generateCacheKey params # pendingRequests (shared s)"
    and fresh: "promises s pr = None"
  shows "consistent (s\<lparr>shared := w',
                 registered := (registered s)(generateCacheKey params \<mapsto> pr),
                 promises := (promises s)(pr \<mapsto> InFlight (generateCacheKey params)),
                 calls := (calls s)(c \<mapsto> AwaitsOwn pr params st)\<rparr>)"
proof -
  let ?fp = "generateCacheKey params"
  let ?s' = "s\<lparr>shared := w', registered := (registered s)(?fp \<mapsto> pr),
                 promises := (promises s)(pr \<mapsto> InFlight ?fp),
                 calls := (calls s)(c \<mapsto> AwaitsOwn pr params st)\<rparr>"
  note D = consistentD[OF cons]
  have noreg: "registered s ?fp = None" using D(1)[of ?fp] np by simp
  have noini: "\<not> initiates s c' pr ps" for c' ps
    using D(5)[of c' pr ps] fresh by auto
  have cold: "\<not> initiates s c pr' ps" for pr' ps
    using old unfolding initiates_def by simp
  have ini: "initiates ?s' c' pr' ps = (if c' = c then pr' = pr \<and> ps = params else initiates s c' pr' ps)"
    for c' pr' ps
    unfolding initiates_def by auto
  show ?thesis
  proof (rule consistentI)
    show "(fp \<in> set (pendingRequests (shared ?s'))) = (registered ?s' fp \<noteq> None)" for fp
      using D(1)[of fp] pend by (cases "fp = ?fp") simp_all
    show "registered ?s' fp = Some pr'" if a: "promises ?s' pr' = Some (InFlight fp)" for pr' fp
    proof (cases "pr' = pr")
      case True
      with a show ?thesis by simp
    next
      case False
      with a have "promises s pr' = Some (InFlight fp)" by simp
      from D(2)[OF this] noreg have "registered s fp = Some pr'" "fp \<noteq> ?fp" by auto
      then show ?thesis by simp
    qed
    show "\<exists>q. promises ?s' pr' = Some q \<and> promiseFor q = fp" if a: "registered ?s' fp = Some pr'" for fp pr'
    proof (cases "fp = ?fp")
      case True
      with a show ?thesis by simp
    next
      case False
      with a have r: "registered s fp = Some pr'" by simp
      from D(3)[OF r] fresh have "pr' \<noteq> pr" by auto
      with D(3)[OF r] show ?thesis by simp
    qed
    show "registered ?s' (generateCacheKey ps) = Some pr'"
      if a: "calls ?s' c' = Some (AwaitsOwn pr' ps st')" for c' pr' ps st'
    proof (cases "c' = c")
      case True
      with a show ?thesis by simp
    next
      case False
      with a have "calls s c' = Some (AwaitsOwn pr' ps st')" by simp
      from D(4)[OF this] noreg have "registered s (generateCacheKey ps) = Some pr'" "generateCacheKey ps \<noteq> ?fp"
        by auto
      then show ?thesis by simp
    qed
    show "\<exists>q. promises ?s' pr' = Some q \<and> promiseFor q = generateCacheKey ps"
      if a: "initiates ?s' c' pr' ps" for c' pr' ps
    proof (cases "c' = c")
      case True
      with a[unfolded ini] show ?thesis by simp
    next
      case False
      with a[unfolded ini] have i: "initiates s c' pr' ps" by simp
      from D(5)[OF i] fresh have "pr' \<noteq> pr" by auto
      with D(5)[OF i] show ?thesis by simp
    qed
    show "c1 = c2" if a: "initiates ?s' c1 pr' ps" "initiates ?s' c2 pr' ps'" for c1 c2 pr' ps ps'
    proof (cases "c1 = c")
      case c1: True
      with a(1)[unfolded ini] have p: "pr' = pr" by simp
      show ?thesis
      proof (cases "c2 = c")
        case True
        with c1 show ?thesis by simp
      next
        case False
        with a(2)[unfolded ini] p noini show ?thesis by simp
      qed
    next
      case c1: False
      with a(1)[unfolded ini] have i1: "initiates s c1 pr' ps" by simp
      show ?thesis
      proof (cases "c2 = c")
        case True
        with a(2)[unfolded ini] have "pr' = pr" by simp
        with i1 noini show ?thesis by simp
      next
        case False
        with a(2)[unfolded ini] have "initiates s c2 pr' ps'" by simp
        with i1 show ?thesis by (rule D(6))
      qed
    qed
    show "\<exists>c' ps. initiates ?s' c' pr' ps" if a: "promises ?s' pr' \<noteq> None" for pr'
    proof (cases "pr' = pr")
      case True
      have "initiates ?s' c pr' params" unfolding ini using True by simp
      then show ?thesis by blast
    next
      case False
      with a have "promises s pr' \<noteq> None" by simp
      from D(7)[OF this] obtain c' ps where i: "initiates s c' pr' ps" by blast
      with cold have "c' \<noteq> c" by auto
      with i have "initiates ?s' c' pr' ps" unfolding ini by simp
      then show ?thesis by blast
    qed
    show "\<exists>q. promises ?s' pr' = Some q \<and> promiseFor q = generateCacheKey ps"
      if a: "calls ?s' c' = Some (AwaitsOther pr' ps st')" for c' pr' ps st'
    proof -
      from a have "c' \<noteq> c" by auto
      with a have o: "calls s c' = Some (AwaitsOther pr' ps st')" by simp
      from D(8)[OF o] fresh have "pr' \<noteq> pr" by auto
      with D(8)[OF o] show ?thesis by simp
    qed
    show "\<exists>out. promises ?s' pr' = Some (Settled (generateCacheKey ps) out) \<and> r = resultOf out"
      if a: "calls ?s' c' = Some (Finished (Initiator pr') ps r) \<or> calls ?s' c' = Some (Finished (Waiter pr') ps r)"
      for c' pr' ps r
    proof -
      from a have "c' \<noteq> c" by auto
      with a have o: "calls s c' = Some (Finished (Initiator pr') ps r) \<or> calls s c' = Some (Finished (Waiter pr') ps r)"
        by simp
      from D(9)[OF o] fresh have "pr' \<noteq> pr" by auto
      with D(9)[OF o] show ?thesis by simp
    qed
  qed
qed

lemma consistent_ownerResumed:
  assumes cons: "consistent s"
    and old: "calls s c = Some (AwaitsOwn pr params st)"
    and settled: "promises s pr = Some (Settled fp out)"
    and pend: "pendingRequests w' = removeAll (generateCacheKey params) (pendingRequests (shared s))"
  shows "consistent (s\<lparr>shared := w',
                 registered := (registered s)(generateCacheKey params := None),
                 calls := (calls s)(c \<mapsto> Finished (Initiator pr) params (resultOf out))\<rparr>)"
proof -
  let ?ck = "generateCacheKey params"
  let ?s' = "s\<lparr>shared := w', registered := (registered s)(?ck := None),
                 calls := (calls s)(c \<mapsto> Finished (Initiator pr) params (resultOf out))\<rparr>"
  note D = consistentD[OF cons]
  have me: "initiates s c pr params" using old unfolding initiates_def by blast
  from D(5)[OF me] settled have fp: "fp = ?ck" by simp
  from D(4)[OF old] have reg: "registered s ?ck = Some pr" .
  have ini: "initiates ?s' c' pr' ps = initiates s c' pr' ps" for c' pr' ps
    using old unfolding initiates_def by (cases "c' = c") auto
  show ?thesis
  proof (rule consistentI)
    show "(fp' \<in> set (pendingRequests (shared ?s'))) = (registered ?s' fp' \<noteq> None)" for fp'
      using D(1)[of fp'] pend by (cases "fp' = ?ck") simp_all
    show "registered ?s' fp' = Some pr'" if a: "promises ?s' pr' = Some (InFlight fp')" for pr' fp'
    proof -
      from a have f: "promises s pr' = Some (InFlight fp')" by simp
      from D(2)[OF f] have r: "registered s fp' = Some pr'" .
      have "fp' \<noteq> ?ck"
      proof
        assume "fp' = ?ck"
        with r reg have "pr' = pr" by simp
        with f settled show False by simp
      qed
      with r show ?thesis by simp
    qed
    show "\<exists>q. promises ?s' pr' = Some q \<and> promiseFor q = fp'" if a: "registered ?s' fp' = Some pr'" for fp' pr'
    proof -
      from a have "registered s fp' = Some pr'" by (cases "fp' = ?ck") simp_all
      from D(3)[OF this] show ?thesis by simp
    qed
    show "registered ?s' (generateCacheKey ps) = Some pr'"
      if a: "calls ?s' c' = Some (AwaitsOwn pr' ps st')" for c' pr' ps st'
    proof -
      from a have ne: "c' \<noteq> c" by auto
      with a have o: "calls s c' = Some (AwaitsOwn pr' ps st')" by simp
      from D(4)[OF o] have r: "registered s (generateCacheKey ps) = Some pr'" .
      have "generateCacheKey ps \<noteq> ?ck"
      proof
        assume e: "generateCacheKey ps = ?ck"
        with r reg have "pr' = pr" by simp
        with o have "initiates s c' pr ps" unfolding initiates_def by blast
        from D(6)[OF this me] ne show False by simp
      qed
      with r show ?thesis by simp
    qed
    show "\<exists>q. promises ?s' pr' = Some q \<and> promiseFor q = generateCacheKey ps" if "initiates ?s' c' pr' ps" for c' pr' ps
      using that[unfolded ini] D(5) by simp
    show "c1 = c2" if "initiates ?s' c1 pr' ps" "initiates ?s' c2 pr' ps'" for c1 c2 pr' ps ps'
      using that[unfolded ini] by (rule D(6))
    show "\<exists>c' ps. initiates ?s' c' pr' ps" if "promises ?s' pr' \<noteq> None" for pr'
      using that D(7)[of pr'] unfolding ini by simp
    show "\<exists>q. promises ?s' pr' = Some q \<and> promiseFor q = generateCacheKey ps"
      if a: "calls ?s' c' = Some (AwaitsOther pr' ps st')" for c' pr' ps st'
    proof -
      from a have "c' \<noteq> c" by auto
      with a have "calls s c' = Some (AwaitsOther pr' ps st')" by simp
      from D(8)[OF this] show ?thesis by simp
    qed
    show "\<exists>out'. promises ?s' pr' = Some (Settled (generateCacheKey ps) out') \<and> r = resultOf out'"
      if a: "calls ?s' c' = Some (Finished (Initiator pr') ps r) \<or> calls ?s' c' = Some (Finished (Waiter pr') ps r)"
      for c' pr' ps r
    proof (cases "c' = c")
      case True
      with a have "pr' = pr" "ps = params" "r = resultOf out" by auto
      with settled fp show ?thesis by simp
    next
      case False
      with a have "calls s c' = Some (Finished (Initiator pr') ps r) \<or> calls s c' = Some (Finished (Waiter pr') ps r)"
        by simp
      from D(9)[OF this] show ?thesis by simp
    qed
  qed
qed

lemma consistent_step:
  assumes "step E s s'" and "consistent s"
  shows "consistent s'"
  using assms
proof (induction rule: step.induct)
  case (enters s c params)
  then show ?case by (intro consistent_inert) (simp_all add: countRequest_def)
next
  case (finishes s c params st r w1)
  note afterInit_Ends(1)[OF finishes(2)]
  with finishes show ?case by (intro consistent_inert[where p' = params and r' = r]) simp_all
next
  case (joins s c params st fp w1 pr)
  have "pendingRequests w1 = pendingRequests (shared s)" "fp = generateCacheKey params"
    using afterInit_Ends(1)[OF joins(2)] afterInit_Ends(4)[OF joins(2)] by simp_all
  with joins show ?case by (intro consistent_joins) simp_all
next
  case (starts s c params st fp w1 pr)
  note a = afterInit_Starts[OF starts(2)]
  with starts show ?case using consistent_starts[of s c params st w1 pr] by simp
next
  case (proceeds w' s)
  then show ?case by (intro consistent_proceeds) simp_all
next
  case (settles s pr fp out)
  then show ?case by (intro consistent_settles) simp_all
next
  case (ownerResumed s c pr params st fp out r w1)
  from ownerResumes_result[OF ownerResumed(3)]
  have "r = resultOf out" "pendingRequests w1 = removeAll (generateCacheKey params) (pendingRequests (shared s))"
    by simp_all
  with ownerResumed show ?case using consistent_ownerResumed[of s c pr params st fp out w1] by simp
next
  case (waiterResumed s c pr params st fp out r w1)
  from waiterResumes_result[OF waiterResumed(3)]
  have "r = resultOf out" "pendingRequests w1 = pendingRequests (shared s)" by simp_all
  with waiterResumed show ?case using consistent_waiterResumed[of s c pr params st w1 fp out] by simp
qed

lemma reachable_consistent: "reachable E s \<Longrightarrow> consistent s"
  by (induction rule: reachable.induct) (auto intro: consistent_start consistent_step)


lemma collectKeys_pending:
  "collectKeys E today ks w = (r, w') \<Longrightarrow> pendingRequests w' = pendingRequests w"
proof (induction ks arbitrary: w r w')
  case Nil
  then show ?case by simp
next
  case (Cons k ks)
  obtain r1 w1 where g1: "redis_get E (usageKey (key_id k) today) w = (r1, w1)" by force
  obtain r2 w2 where g2: "redis_get E (errorKey (key_id k) today) w1 = (r2, w2)" by force
  obtain r3 w3 where g3: "collectKeys E today ks w2 = (r3, w3)" by force
  obtain r4 w4 where g4: "collectKeys E today ks w1 = (r4, w4)" by force
  have f1: "w1 = emit (RedisGet (usageKey (key_id k) today)) w" using g1 by (rule redis_get_frame)
  have f2: "w2 = emit (RedisGet (errorKey (key_id k) today)) w1" using g2 by (rule redis_get_frame)
  from Cons.IH[OF g3] Cons.IH[OF g4]
  have "pendingRequests w3 = pendingRequests w" "pendingRequests w4 = pendingRequests w"
    by (simp_all add: f1 f2 emit_sel)
  moreover have "w' = w4 \<or> w' = w3"
    using Cons.prems g1 g2 g3 g4 by (auto split: sum.splits if_splits)
  ultimately show ?case by auto
qed

lemma getAllAvailableKeys_pending:
  "getAllAvailableKeys E w = (r, w') \<Longrightarrow> pendingRequests w' = pendingRequests w"
  by (auto simp: getAllAvailableKeys_def split: if_splits prod.splits dest: collectKeys_pending)

lemma recordUsage_pending: "pendingRequests (recordUsage E i w) = pendingRequests w"
  by (auto simp: recordUsage_def recordUsageOn_def redis_incr_def redis_expire_def redis_lpush_def
      emit_def split: sum.splits if_splits)

lemma recordError_pending: "pendingRequests (snd (recordError E i w)) = pendingRequests w"
  by (auto simp: recordError_def recordErrorOn_def redis_incr_def redis_expire_def
      emit_def split: sum.splits if_splits)

lemma tryKey_pending: "tryKey E p ck a w = (r, w') \<Longrightarrow> pendingRequests w' = pendingRequests w"
  by (auto simp: tryKey_def httpGet_def storeResult_def cache_set_def countApiCall_def
      countCacheWrite_def recordUsage_pending emit_sel split: sum.splits if_splits)

lemma tryKeys_pending:
  "tryKeys E p ck ks le w = (r, w') \<Longrightarrow> pendingRequests w' = pendingRequests w"
proof (induction ks arbitrary: le w r w')
  case Nil
  then show ?case by simp
next
  case (Cons a ks)
  obtain r1 w1 where t: "tryKey E p ck a w = (r1, w1)" by force
  note p1 = tryKey_pending[OF t]
  show ?case
  proof (cases r1)
    case (Inr d)
    with Cons.prems t p1 show ?thesis by simp
  next
    case (Inl e)
    with Cons.prems t have "tryKeys E p ck ks (Some e) (snd (recordError E (key_id a) w1)) = (r, w')" by simp
    from Cons.IH[OF this] p1 show ?thesis by (simp add: recordError_pending)
  qed
qed

lemma attemptOnce_pending:
  "attemptOnce E p ck le w = (r, w') \<Longrightarrow> pendingRequests w' = pendingRequests w"
  by (auto simp: attemptOnce_def split: prod.splits sum.splits if_splits
      dest!: getAllAvailableKeys_pending tryKeys_pending)

lemma attempts_pending:
  "attempts E p ck as le w = (r, w') \<Longrightarrow> pendingRequests w' = pendingRequests w"
proof (induction as arbitrary: le w r w')
  case Nil
  then show ?case by simp
next
  case (Cons a as)
  obtain d le1 w1 where once: "attemptOnce E p ck le w = ((d, le1), w1)"
    by (metis prod.collapse)
  note p1 = attemptOnce_pending[OF once]
  show ?case
  proof (cases d)
    case (Some body)
    with Cons.prems once p1 show ?thesis by simp
  next
    case None
    let ?w2 = "if a < retryCount E then sleep (retryDelay E * a) w1 else w1"
    from Cons.prems once None have "attempts E p ck as le1 ?w2 = (r, w')" by simp
    from Cons.IH[OF this] p1 show ?thesis by (simp add: sleep_def emit_sel split: if_splits)
  qed
qed

lemma fetch_keeps_pending:
  "fetchWeatherFromAPI E p ck w = (out, w') \<Longrightarrow> pendingRequests w' = pendingRequests w"
  unfolding fetchWeatherFromAPI_def by (rule attempts_pending)


lemma sequential_call:
  assumes reach: "reachable E s" and c: "calls s c = None" and pr: "promises s pr = None"
    and run: "getWeatherData E params (shared s) = (r, w')"
  shows "\<exists>s'. reachable E s' \<and> shared s' = w' \<and>
           (calls s' c = Some (Finished Alone params r) \<or>
            calls s' c = Some (Finished (Initiator pr) params r) \<or>
            (\<exists>p. r = AwaitsPending (generateCacheKey params) \<and>
                 registered s (generateCacheKey params) = Some p \<and>
                 calls s' c = Some (AwaitsOther p params (dateNow E (tick (shared s))))))"
proof -
  let ?st = "dateNow E (tick (shared s))"
  let ?ck = "generateCacheKey params"
  let ?s1 = "s\<lparr>shared := countRequest (shared s), calls := (calls s)(c \<mapsto> Entered params ?st)\<rparr>"
  have "step E s ?s1" using c by (rule step.enters)
  with reach have r1: "reachable E ?s1" by (rule reachable.afterStep)
  have c1: "calls ?s1 c = Some (Entered params ?st)" by simp
  obtain a w1 where ai: "afterInit E params ?st (shared ?s1) = (a, w1)" by force
  then have ai': "afterInit E params ?st (countRequest (shared s)) = (a, w1)" by simp
  show ?thesis
  proof (cases a)
    case (Ends r1')
    with run ai' have e: "r = r1'" "w' = w1" by (simp_all add: getWeatherData_cut)
    show ?thesis
    proof (cases "\<forall>fp. r \<noteq> AwaitsPending fp")
      case True
      let ?s2 = "?s1\<lparr>shared := w1, calls := (calls ?s1)(c \<mapsto> Finished Alone params r)\<rparr>"
      have "step E ?s1 ?s2" using c1 ai Ends True unfolding e by (intro step.finishes) simp_all
      with r1 have "reachable E ?s2" by (rule reachable.afterStep)
      moreover have "shared ?s2 = w'" "calls ?s2 c = Some (Finished Alone params r)" by (simp_all add: e)
      ultimately show ?thesis by blast
    next
      case False
      then obtain fp where fp: "r = AwaitsPending fp" by blast
      have f: "fp = ?ck" "fp \<in> set (pendingRequests (shared ?s1))"
        using afterInit_Ends(4,5)[OF ai[unfolded Ends], of fp] fp e by simp_all
      from consistentD(1)[OF reachable_consistent[OF r1], of fp] f(2)
      obtain p where p: "registered ?s1 fp = Some p" by auto
      let ?s2 = "?s1\<lparr>shared := w1, calls := (calls ?s1)(c \<mapsto> AwaitsOther p params ?st)\<rparr>"
      have "step E ?s1 ?s2" using c1 ai Ends p fp e by (intro step.joins[where fp = fp]) simp_all
      with r1 have "reachable E ?s2" by (rule reachable.afterStep)
      moreover have "shared ?s2 = w'" "calls ?s2 c = Some (AwaitsOther p params ?st)" by (simp_all add: e)
      moreover have "registered s ?ck = Some p" using p f(1) by simp
      ultimately show ?thesis using fp f(1) by blast
    qed
  next
    case (Starts fp)
    note f = afterInit_Starts(1)[OF ai[unfolded Starts]]
    obtain out w2 where fe: "fetchWeatherFromAPI E params fp w1 = (out, w2)" by force
    from run ai' Starts fe have o: "ownerResumes E fp ?st out w2 = (r, w')"
      by (simp add: getWeatherData_cut)
    let ?s2 = "?s1\<lparr>shared := w1, registered := (registered ?s1)(fp \<mapsto> pr),
                    promises := (promises ?s1)(pr \<mapsto> InFlight fp),
                    calls := (calls ?s1)(c \<mapsto> AwaitsOwn pr params ?st)\<rparr>"
    have "step E ?s1 ?s2" using c1 ai Starts pr by (intro step.starts) simp_all
    with r1 have r2: "reachable E ?s2" by (rule reachable.afterStep)
    let ?s3 = "?s2\<lparr>shared := w2\<rparr>"
    have "step E ?s2 ?s3" using fetch_keeps_pending[OF fe] by (intro step.proceeds) simp
    with r2 have r3: "reachable E ?s3" by (rule reachable.afterStep)
    let ?s4 = "?s3\<lparr>promises := (promises ?s3)(pr \<mapsto> Settled fp out)\<rparr>"
    have "step E ?s3 ?s4" by (rule step.settles[where fp = fp]) simp
    with r3 have r4: "reachable E ?s4" by (rule reachable.afterStep)
    let ?s5 = "?s4\<lparr>shared := w', registered := (registered ?s4)(?ck := None),
                    calls := (calls ?s4)(c \<mapsto> Finished (Initiator pr) params r)\<rparr>"
    have "step E ?s4 ?s5"
      using o by (intro step.ownerResumed[where st = ?st and fp = fp and out = out]) (simp_all add: f)
    with r4 have "reachable E ?s5" by (rule reachable.afterStep)
    moreover have "shared ?s5 = w'" "calls ?s5 c = Some (Finished (Initiator pr) params r)" by simp_all
    ultimately show ?thesis by blast
  qed
qed

lemma inFlight_unique:
  assumes "consistent s" "p \<in> inFlight s fp" "p' \<in> inFlight s fp"
  shows "p = p'"
  using consistentD(2)[OF assms(1), of p fp] consistentD(2)[OF assms(1), of p' fp] assms(2,3)
  by (simp add: inFlight_def)

lemma no_second_fetch:
  assumes cons: "consistent s" and p: "p \<in> inFlight s fp" and st: "step E s s'"
  shows "inFlight s' fp \<subseteq> {p}"
proof -
  have sub: "inFlight s' fp \<subseteq> inFlight s fp"
    using st
  proof (cases rule: step.cases)
    case (starts c params st fp' w1 pr)
    have np: "fp' \<notin> set (pendingRequests (shared s))"
      using afterInit_Starts(1,2)[OF starts(3)] by simp
    from p have "registered s fp = Some p" using consistentD(2)[OF cons] by (simp add: inFlight_def)
    then have "fp \<in> set (pendingRequests (shared s))" using consistentD(1)[OF cons, of fp] by simp
    with np have "fp' \<noteq> fp" by auto
    then show ?thesis unfolding starts(1) inFlight_def by auto
  qed (auto simp: inFlight_def split: if_splits)
  with inFlight_unique[OF cons _ p] show ?thesis by blast
qed


lemma afterInit_Ends_cases:
  assumes "afterInit E params st w = (Ends r, w1)"
  shows "r = AwaitsPending (generateCacheKey params) \<or> (\<exists>d. r = Returns d \<and> truthy d) \<or>
         (\<exists>e. r = Throws (Some e) \<and> initError E = Some e)"
  using assms
  by (auto simp: afterInit_def joinOrStart_def split: option.splits prod.splits if_splits)


text \<open>
  C1: at every moment of a run of the process, (1) at most one fetch is in flight for each
  fingerprint; (2) no step starts another fetch for a fingerprint that has one in flight;
  (3) while a fetch is in flight for a fingerprint, its promise is the one registered, and
  \<open>getWeatherData\<close> called then for that fingerprint awaits the pending request (or
  returns a cached body, or fails on initialisation) without issuing any command or
  upstream request; (4) a call that joined awaits a promise that fetches its own
  fingerprint and has an initiating call with that fingerprint; (5) a waiter that has
  finished has the outcome of that promise, which is also what the initiating call gets:
  the same body or the same error.
\<close>

theorem C1_single_flight:
  assumes "reachable E s"
  shows "(\<forall>fp p p'. p \<in> inFlight s fp \<longrightarrow> p' \<in> inFlight s fp \<longrightarrow> p = p') \<and>
         (\<forall>s' fp p. p \<in> inFlight s fp \<longrightarrow> step E s s' \<longrightarrow> inFlight s' fp \<subseteq> {p}) \<and>
         (\<forall>(params :: weatherParams) p. p \<in> inFlight s (generateCacheKey params) \<longrightarrow>
             registered s (generateCacheKey params) = Some p \<and>
             (\<exists>r w1. getWeatherData E params (shared s) = (r, w1) \<and> trace w1 = trace (shared s) \<and>
                (r = AwaitsPending (generateCacheKey params) \<or> (\<exists>d. r = Returns d \<and> truthy d) \<or>
                 (\<exists>e. r = Throws (Some e) \<and> initError E = Some e)))) \<and>
         (\<forall>c pr params st. calls s c = Some (AwaitsOther pr params st) \<longrightarrow>
             (\<exists>q. promises s pr = Some q \<and> promiseFor q = generateCacheKey params) \<and>
             (\<exists>c0 params0. c0 \<noteq> c \<and> initiates s c0 pr params0 \<and>
                 generateCacheKey params0 = generateCacheKey params)) \<and>
         (\<forall>c pr params r. calls s c = Some (Finished (Waiter pr) params r) \<longrightarrow>
             (\<exists>out. promises s pr = Some (Settled (generateCacheKey params) out) \<and> r = resultOf out) \<and>
             (\<exists>c0 params0. c0 \<noteq> c \<and> initiates s c0 pr params0 \<and>
                 generateCacheKey params0 = generateCacheKey params \<and>
                 (\<forall>r0. calls s c0 = Some (Finished (Initiator pr) params0 r0) \<longrightarrow> r0 = r)))"
proof -
  from assms have cons: "consistent s" by (rule reachable_consistent)
  note D = consistentD[OF cons]
  have a: "p = p'" if "p \<in> inFlight s fp" "p' \<in> inFlight s fp" for fp p p'
    using cons that by (rule inFlight_unique)
  have b: "inFlight s' fp \<subseteq> {p}" if "p \<in> inFlight s fp" "step E s s'" for s' fp p
    using cons that by (rule no_second_fetch)
  have c: "registered s (generateCacheKey params) = Some p \<and>
             (\<exists>r w1. getWeatherData E params (shared s) = (r, w1) \<and> trace w1 = trace (shared s) \<and>
                (r = AwaitsPending (generateCacheKey params) \<or> (\<exists>d. r = Returns d \<and> truthy d) \<or>
                 (\<exists>e. r = Throws (Some e) \<and> initError E = Some e)))"
    if "p \<in> inFlight s (generateCacheKey params)" for params :: weatherParams and p
  proof -
    let ?ck = "generateCacheKey params"
    let ?st = "dateNow E (tick (shared s))"
    from that have reg: "registered s ?ck = Some p" using D(2) by (simp add: inFlight_def)
    then have "?ck \<in> set (pendingRequests (countRequest (shared s)))"
      using D(1)[of ?ck] by (simp add: countRequest_def)
    from afterInit_pending[OF this, of E ?st] obtain r w1 where
      ai: "afterInit E params ?st (countRequest (shared s)) = (Ends r, w1)" by blast
    then have g: "getWeatherData E params (shared s) = (r, w1)" by (simp add: getWeatherData_cut)
    have "trace w1 = trace (shared s)" using afterInit_Ends(2)[OF ai] by (simp add: countRequest_def)
    with g reg afterInit_Ends_cases[OF ai] show ?thesis by blast
  qed
  have ini: "\<exists>c0 params0. c0 \<noteq> c \<and> initiates s c0 pr params0 \<and> generateCacheKey params0 = fp \<and>
               (\<forall>r0 out. promises s pr = Some (Settled fp out) \<longrightarrow>
                   calls s c0 = Some (Finished (Initiator pr) params0 r0) \<longrightarrow> r0 = resultOf out)"
    if q: "promises s pr = Some q" "promiseFor q = fp" and nc: "\<And>ps. \<not> initiates s c pr ps" for c pr q fp
  proof -
    from q(1) have "promises s pr \<noteq> None" by simp
    from D(7)[OF this] obtain c0 params0 where i: "initiates s c0 pr params0" by blast
    with nc have "c0 \<noteq> c" by auto
    moreover from D(5)[OF i] q have "generateCacheKey params0 = fp" by auto
    moreover have "r0 = resultOf out"
      if "promises s pr = Some (Settled fp out)" "calls s c0 = Some (Finished (Initiator pr) params0 r0)"
      for r0 out
      using D(9)[of c0 pr params0 r0] that by auto
    ultimately show ?thesis using i by blast
  qed
  have d: "(\<exists>q. promises s pr = Some q \<and> promiseFor q = generateCacheKey params) \<and>
             (\<exists>c0 params0. c0 \<noteq> c \<and> initiates s c0 pr params0 \<and>
                 generateCacheKey params0 = generateCacheKey params)"
    if w: "calls s c = Some (AwaitsOther pr params st)" for c pr params st
  proof -
    from D(8)[OF w] obtain q where q: "promises s pr = Some q" "promiseFor q = generateCacheKey params"
      by blast
    have "\<not> initiates s c pr ps" for ps using w by (simp add: initiates_def)
    from ini[OF q this] q show ?thesis by blast
  qed
  have e: "(\<exists>out. promises s pr = Some (Settled (generateCacheKey params) out) \<and> r = resultOf out) \<and>
             (\<exists>c0 params0. c0 \<noteq> c \<and> initiates s c0 pr params0 \<and>
                 generateCacheKey params0 = generateCacheKey params \<and>
                 (\<forall>r0. calls s c0 = Some (Finished (Initiator pr) params0 r0) \<longrightarrow> r0 = r))"
    if w: "calls s c = Some (Finished (Waiter pr) params r)" for c pr params r
  proof -
    from D(9)[of c pr params r] w obtain out where
      o: "promises s pr = Some (Settled (generateCacheKey params) out)" "r = resultOf out" by blast
    have nc: "\<not> initiates s c pr ps" for ps using w by (simp add: initiates_def)
    have "promiseFor (Settled (generateCacheKey params) out) = generateCacheKey params" by simp
    from ini[OF o(1) this nc] o show ?thesis by blast
  qed
  have A: "\<forall>fp p p'. p \<in> inFlight s fp \<longrightarrow> p' \<in> inFlight s fp \<longrightarrow> p = p'"
    using a by blast
  have B: "\<forall>s' fp p. p \<in> inFlight s fp \<longrightarrow> step E s s' \<longrightarrow> inFlight s' fp \<subseteq> {p}"
    using b by blast
  have C: "\<forall>(params :: weatherParams) p. p \<in> inFlight s (generateCacheKey params) \<longrightarrow>
             registered s (generateCacheKey params) = Some p \<and>
             (\<exists>r w1. getWeatherData E params (shared s) = (r, w1) \<and> trace w1 = trace (shared s) \<and>
                (r = AwaitsPending (generateCacheKey params) \<or> (\<exists>d. r = Returns d \<and> truthy d) \<or>
                 (\<exists>e. r = Throws (Some e) \<and> initError E = Some e)))"
    by (intro allI impI) (erule c)
  have D': "\<forall>c pr params st. calls s c = Some (AwaitsOther pr params st) \<longrightarrow>
             (\<exists>q. promises s pr = Some q \<and> promiseFor q = generateCacheKey params) \<and>
             (\<exists>c0 params0. c0 \<noteq> c \<and> initiates s c0 pr params0 \<and>
                 generateCacheKey params0 = generateCacheKey params)"
    by (intro allI impI) (erule d)
  have E': "\<forall>c pr params r. calls s c = Some (Finished (Waiter pr) params r) \<longrightarrow>
             (\<exists>out. promises s pr = Some (Settled (generateCacheKey params) out) \<and> r = resultOf out) \<and>
             (\<exists>c0 params0. c0 \<noteq> c \<and> initiates s c0 pr params0 \<and>
                 generateCacheKey params0 = generateCacheKey params \<and>
                 (\<forall>r0. calls s c0 = Some (Finished (Initiator pr) params0 r0) \<longrightarrow> r0 = r))"
    by (intro allI impI) (erule e)
  show ?thesis by (rule conjI[OF A conjI[OF B conjI[OF C conjI[OF D' E']]]])
qed

lemma demo_afterInit_start:
  "afterInit demoEnv demoParams demoNow (countRequest freshWorld) =
     (Starts (generateCacheKey demoParams),
      (countRequest freshWorld)\<lparr>pendingRequests := [generateCacheKey demoParams]\<rparr>)"
  by (simp add: afterInit_def joinOrStart_def cachedData_def cache_get_def demoEnv_fields
      countRequest_def freshWorld_def)

lemma demo_afterInit_join:
  "afterInit demoEnv demoParams demoNow (shared fetchStarted) =
     (Ends (AwaitsPending (generateCacheKey demoParams)), shared fetchStarted)"
  by (simp add: afterInit_def joinOrStart_def cachedData_def cache_get_def demoEnv_fields
      countRequest_def freshWorld_def fetchStarted_def)

lemma reachable_fetchStarted: "reachable demoEnv fetchStarted"
proof -
  let ?fp = "generateCacheKey demoParams"
  let ?s0 = "\<lparr>shared = freshWorld, registered = Map.empty, promises = Map.empty, calls = Map.empty\<rparr>"
  let ?s1 = "?s0\<lparr>shared := countRequest (shared ?s0),
                  calls := (calls ?s0)(0 \<mapsto> Entered demoParams (dateNow demoEnv (tick (shared ?s0))))\<rparr>"
  let ?w1 = "(countRequest freshWorld)\<lparr>pendingRequests := [?fp]\<rparr>"
  let ?s2 = "?s1\<lparr>shared := ?w1, registered := (registered ?s1)(?fp \<mapsto> 0),
                  promises := (promises ?s1)(0 \<mapsto> InFlight ?fp),
                  calls := (calls ?s1)(0 \<mapsto> AwaitsOwn 0 demoParams demoNow)\<rparr>"
  let ?s3 = "?s2\<lparr>shared := countRequest (shared ?s2),
                  calls := (calls ?s2)(1 \<mapsto> Entered demoParams (dateNow demoEnv (tick (shared ?s2))))\<rparr>"
  have r0: "reachable demoEnv ?s0" by (rule reachable.atStart) (simp add: freshWorld_fields)
  have "step demoEnv ?s0 ?s1" by (rule step.enters) simp
  with r0 have r1: "reachable demoEnv ?s1" by (rule reachable.afterStep)
  have "step demoEnv ?s1 ?s2"
    by (rule step.starts[where st = demoNow]) (simp_all add: demoEnv_fields demo_afterInit_start)
  with r1 have r2: "reachable demoEnv ?s2" by (rule reachable.afterStep)
  have "step demoEnv ?s2 ?s3" by (rule step.enters) simp
  with r2 have "reachable demoEnv ?s3" by (rule reachable.afterStep)
  moreover have "?s3 = fetchStarted"
    by (simp add: fetchStarted_def demoEnv_fields countRequest_def)
  ultimately show ?thesis by simp
qed

lemma step_fetchStarted_sharedFetch: "step demoEnv fetchStarted sharedFetch"
proof -
  let ?fp = "generateCacheKey demoParams"
  let ?s4 = "fetchStarted\<lparr>shared := shared fetchStarted,
                 calls := (calls fetchStarted)(1 \<mapsto> AwaitsOther 0 demoParams demoNow)\<rparr>"
  have "step demoEnv fetchStarted ?s4"
    by (rule step.joins[where fp = ?fp])
       (simp_all add: demo_afterInit_join, simp_all add: fetchStarted_def)
  moreover have "?s4 = sharedFetch" by (simp add: sharedFetch_def fetchStarted_def)
  ultimately show ?thesis by simp
qed

lemma reachable_sharedFetch: "reachable demoEnv sharedFetch"
  using reachable_fetchStarted step_fetchStarted_sharedFetch by (rule reachable.afterStep)

lemma reachable_sharedFailure: "reachable demoEnv sharedFailure"
proof -
  let ?fp = "generateCacheKey demoParams"
  let ?s5 = "sharedFetch\<lparr>promises := (promises sharedFetch)(0 \<mapsto> Settled ?fp timedOut)\<rparr>"
  let ?w6 = "updateResponseTime demoEnv demoNow (countError (countRequest (countRequest freshWorld)))"
  let ?s6 = "?s5\<lparr>shared := ?w6, registered := (registered ?s5)(?fp := None),
                  calls := (calls ?s5)(0 \<mapsto> Finished (Initiator 0) demoParams (resultOf timedOut))\<rparr>"
  let ?w7 = "updateResponseTime demoEnv demoNow (countError ?w6)"
  let ?s7 = "?s6\<lparr>shared := ?w7,
                  calls := (calls ?s6)(1 \<mapsto> Finished (Waiter 0) demoParams (resultOf timedOut))\<rparr>"
  have "step demoEnv sharedFetch ?s5"
    by (rule step.settles[where fp = ?fp]) (simp add: sharedFetch_def fetchStarted_def)
  with reachable_sharedFetch have r5: "reachable demoEnv ?s5" by (rule reachable.afterStep)
  have "step demoEnv ?s5 ?s6"
    by (rule step.ownerResumed[where st = demoNow and fp = ?fp and out = timedOut])
       (simp_all add: sharedFetch_def fetchStarted_def ownerResumes_def timedOut_def resultOf_def
          updateResponseTime_def countError_def countRequest_def freshWorld_def tick_def)
  with r5 have r6: "reachable demoEnv ?s6" by (rule reachable.afterStep)
  have "step demoEnv ?s6 ?s7"
    by (rule step.waiterResumed[where st = demoNow and fp = ?fp and out = timedOut])
       (simp_all add: sharedFetch_def fetchStarted_def waiterResumes_def timedOut_def resultOf_def)
  with r6 have "reachable demoEnv ?s7" by (rule reachable.afterStep)
  moreover have "?s7 = sharedFailure"
    by (simp add: sharedFailure_def sharedFetch_def fetchStarted_def fun_upd_twist fun_upd_idem)
  ultimately show ?thesis by simp
qed

theorem C1_single_flight_witness:
  "reachable demoEnv fetchStarted \<and>
   inFlight fetchStarted (generateCacheKey demoParams) = {0} \<and>
   step demoEnv fetchStarted sharedFetch \<and>
   inFlight sharedFetch (generateCacheKey demoParams) \<subseteq> {0} \<and>
   registered fetchStarted (generateCacheKey demoParams) = Some 0 \<and>
   fst (getWeatherData demoEnv demoParams (shared fetchStarted)) =
     AwaitsPending (generateCacheKey demoParams) \<and>
   trace (snd (getWeatherData demoEnv demoParams (shared fetchStarted))) = trace (shared fetchStarted) \<and>
   reachable demoEnv sharedFetch \<and>
   calls sharedFetch 1 = Some (AwaitsOther 0 demoParams demoNow) \<and>
   promises sharedFetch 0 = Some (InFlight (generateCacheKey demoParams)) \<and>
   initiates sharedFetch 0 0 demoParams \<and>
   reachable demoEnv sharedFailure \<and>
   calls sharedFailure 1 =
     Some (Finished (Waiter 0) demoParams (Throws (Some (NetworkError ''timeout'')))) \<and>
   calls sharedFailure 0 =
     Some (Finished (Initiator 0) demoParams (Throws (Some (NetworkError ''timeout''))))"
proof -
  let ?fp = "generateCacheKey demoParams"
  note A = C1_single_flight [OF reachable_fetchStarted]
  note B = C1_single_flight [OF reachable_sharedFetch]
  note C = C1_single_flight [OF reachable_sharedFailure]
  have m: "0 \<in> inFlight fetchStarted ?fp" by (simp add: inFlight_def fetchStarted_def)
  note A1 = A [THEN conjunct1, rule_format]
  note A2 = A [THEN conjunct2, THEN conjunct1, rule_format]
  note A3 = A [THEN conjunct2, THEN conjunct2, THEN conjunct1, rule_format]
  note B4 = B [THEN conjunct2, THEN conjunct2, THEN conjunct2, THEN conjunct1, rule_format]
  note C5 = C [THEN conjunct2, THEN conjunct2, THEN conjunct2, THEN conjunct2, rule_format]
  have one: "inFlight fetchStarted ?fp = {0}" using A1[OF m] m by auto
  have two: "inFlight sharedFetch ?fp \<subseteq> {0}" using m step_fetchStarted_sharedFetch by (rule A2)
  note A3m = A3 [OF m]
  from A3m have reg: "registered fetchStarted ?fp = Some 0" by (rule conjunct1)
  from A3m [THEN conjunct2] obtain r w1 where
    g: "getWeatherData demoEnv demoParams (shared fetchStarted) = (r, w1)"
       "trace w1 = trace (shared fetchStarted)"
       "r = AwaitsPending ?fp \<or> (\<exists>d. r = Returns d \<and> truthy d) \<or>
        (\<exists>e. r = Throws (Some e) \<and> initError demoEnv = Some e)"
    by (elim exE conjE)
  have "getWeatherData demoEnv demoParams (shared fetchStarted) =
          (AwaitsPending ?fp, countRequest (shared fetchStarted))"
    by (simp add: getWeatherData_def onMiss_def cachedData_def cache_get_def demoEnv_fields
        countRequest_def freshWorld_def fetchStarted_def)
  with g(1) have r: "r = AwaitsPending ?fp" by simp
  have w: "calls sharedFetch 1 = Some (AwaitsOther 0 demoParams demoNow)"
    by (simp add: sharedFetch_def)
  from B4 [OF w, THEN conjunct2] obtain c0 params0 where
    i: "c0 \<noteq> 1" "initiates sharedFetch c0 0 params0" by (elim exE conjE)
  have p: "promises sharedFetch 0 = Some (InFlight ?fp)" by (simp add: sharedFetch_def fetchStarted_def)
  have i0: "initiates sharedFetch 0 0 demoParams" by (simp add: initiates_def sharedFetch_def)
  have f1: "calls sharedFailure 1 = Some (Finished (Waiter 0) demoParams (Throws (Some (NetworkError ''timeout''))))"
    by (simp add: sharedFailure_def resultOf_def timedOut_def)
  from C5 [OF f1, THEN conjunct2] obtain c1 params1 where
    j: "c1 \<noteq> 1" "initiates sharedFailure c1 0 params1"
       "\<forall>r0. calls sharedFailure c1 = Some (Finished (Initiator 0) params1 r0) \<longrightarrow>
             r0 = Throws (Some (NetworkError ''timeout''))" by (elim exE conjE)
  have f0: "calls sharedFailure 0 = Some (Finished (Initiator 0) demoParams (Throws (Some (NetworkError ''timeout''))))"
    by (simp add: sharedFailure_def resultOf_def timedOut_def)
  from reachable_fetchStarted one step_fetchStarted_sharedFetch two reg g r reachable_sharedFetch w p i0
    reachable_sharedFailure f1 f0
  show ?thesis by simp
qed


section \<open>The DayKey\<close>

lemma digitChar_digit: "digitChar n \<in> set ''0123456789''"
proof -
  have "nat (n mod 10) < length ''0123456789''" by simp
  then show ?thesis unfolding digitChar_def by (rule nth_mem)
qed

lemma digitChar_not_T: "digitChar n \<noteq> CHR ''T''"
  using digitChar_digit[of n] by auto

lemma isoYear_no_T: "CHR ''T'' \<notin> set (isoYear y)"
  by (simp add: isoYear_def pad4_def pad6_def digitChar_not_T[symmetric])

lemma isoDate_no_T: "CHR ''T'' \<notin> set (isoDate z)"
  by (simp add: isoDate_def isoYear_no_T pad2_def digitChar_not_T[symmetric] split: prod.splits)

lemma getTodayString_isoDate: "getTodayString t = isoDate (Day t)"
proof -
  have "takeWhile (\<lambda>c. c \<noteq> CHR ''T'') (isoDate (Day t) @ CHR ''T'' # (isoTime t @ ''Z'')) = isoDate (Day t)"
    using isoDate_no_T[of "Day t"] by (subst takeWhile_tail) (auto simp: takeWhile_eq_all_conv)
  then show ?thesis by (simp add: getTodayString_def toISOString_def)
qed

lemma Day_midnight: "Day (t - t mod msPerDay) = Day t"
  by (simp add: Day_def msPerDay_def minus_mod_eq_mult_div)

text \<open>
  The calendar arithmetic: the year of the era, the day of the year, the month and the day
  of the month are in range, and the civil date determines the day number.
\<close>

lemma div_bounds:
  fixes a k :: int
  assumes "0 < k"
  shows "k * (a div k) \<le> a" "a < k * (a div k) + k"
proof -
  have e: "k * (a div k) + a mod k = a" by simp
  have "0 \<le> a mod k" "a mod k < k" using assms by simp_all
  with e show "k * (a div k) \<le> a" "a < k * (a div k) + k" by linarith+
qed

lemma leapAdjusted_step:
  assumes "0 \<le> n" "n < 146096"
  shows "leapAdjusted n \<le> leapAdjusted (n + 1)"
proof (cases "n + 1 = 146096")
  case True
  then have "n = 146095" by simp
  then show ?thesis by (simp add: leapAdjusted_def)
next
  case False
  with assms have lt: "n + 1 < 146096" by simp
  have z: "n div 146096 = 0" "(n + 1) div 146096 = 0" using assms lt by simp_all
  have q1: "(n + 1) div 1460 \<le> n div 1460 + 1"
    using div_bounds[of 1460 n] div_bounds[of 1460 "n + 1"] by linarith
  have q2: "n div 36524 \<le> (n + 1) div 36524" by (rule zdiv_mono1) simp_all
  show ?thesis unfolding leapAdjusted_def z using q1 q2 by linarith
qed

lemma leapAdjusted_mono:
  assumes "0 \<le> n" "n \<le> m" "m \<le> 146096"
  shows "leapAdjusted n \<le> leapAdjusted m"
  using assms(2,3)
proof (induction m rule: int_ge_induct)
  case base
  then show ?case by simp
next
  case (step i)
  then have "leapAdjusted n \<le> leapAdjusted i" by simp
  also have "\<dots> \<le> leapAdjusted (i + 1)" using assms(1) step by (intro leapAdjusted_step) simp_all
  finally show ?case .
qed

lemma year_split:
  fixes y :: int
  assumes "0 \<le> y" "y \<le> 399"
  shows "\<exists>c k j. y = 100 * c + 4 * k + j \<and> 0 \<le> c \<and> c \<le> 3 \<and> 0 \<le> k \<and> k \<le> 24 \<and>
           0 \<le> j \<and> j \<le> 3 \<and> y div 4 = 25 * c + k \<and> y div 100 = c"
proof -
  define c where "c = y div 100"
  define m where "m = y mod 100"
  define k where "k = m div 4"
  define j where "j = m mod 4"
  have ym: "y = 100 * c + m" by (simp add: c_def m_def)
  have mb: "0 \<le> m" "m < 100" by (simp_all add: m_def)
  have mk: "m = 4 * k + j" by (simp add: k_def j_def)
  have jb: "0 \<le> j" "j < 4" by (simp_all add: j_def)
  have cb: "0 \<le> c" "c \<le> 3"
    using assms div_bounds[of 100 y] unfolding c_def by linarith+
  have kb: "0 \<le> k" "k \<le> 24" using mb mk jb by linarith+
  have "y = 4 * (25 * c + k) + j" using ym mk by simp
  then have "y div 4 = 25 * c + k" using jb by (rule int_div_pos_eq)
  with ym mk cb kb jb show ?thesis unfolding c_def[symmetric] by (intro exI[of _ c] exI[of _ k] exI[of _ j]) simp
qed

lemma leapAdjusted_year_start:
  assumes "0 \<le> y" "y \<le> 399"
  shows "leapAdjusted (daysBeforeYear y) = 365 * y"
proof -
  from year_split[OF assms] obtain c k j where
    y: "y = 100 * c + 4 * k + j" and b: "0 \<le> c" "c \<le> 3" "0 \<le> k" "k \<le> 24" "0 \<le> j" "j \<le> 3"
    and d4: "y div 4 = 25 * c + k" and d100: "y div 100 = c" by blast
  let ?D = "daysBeforeYear y"
  have "?D = 365 * y + (25 * c + k) - c"
    unfolding daysBeforeYear_def d4 d100 by simp
  also have "\<dots> = 36524 * c + 1461 * k + 365 * j"
    by (simp add: y)
  finally have D: "?D = 36524 * c + 1461 * k + 365 * j" .
  have "?D = 1460 * (25 * c + k) + (24 * c + k + 365 * j)" unfolding D by simp
  then have q1: "?D div 1460 = 25 * c + k" by (rule int_div_pos_eq) (use b in linarith)+
  have "?D = 36524 * c + (1461 * k + 365 * j)" unfolding D by simp
  then have q2: "?D div 36524 = c" by (rule int_div_pos_eq) (use b in linarith)+
  have "0 \<le> ?D" "?D < 146096" unfolding D using b by linarith+
  then have q3: "?D div 146096 = 0" by simp
  have "leapAdjusted ?D = ?D - (25 * c + k) + c"
    by (simp add: leapAdjusted_def q1 q2 q3)
  also have "\<dots> = 365 * y" unfolding D by (simp add: y)
  finally show ?thesis .
qed

lemma leapAdjusted_before_year_start:
  assumes "1 \<le> y" "y \<le> 399"
  shows "leapAdjusted (daysBeforeYear y - 1) < 365 * y"
proof -
  have y0: "0 \<le> y" using assms by simp
  from year_split[OF y0 assms(2)] obtain c k j where
    y: "y = 100 * c + 4 * k + j" and b: "0 \<le> c" "c \<le> 3" "0 \<le> k" "k \<le> 24" "0 \<le> j" "j \<le> 3"
    and d4: "y div 4 = 25 * c + k" and d100: "y div 100 = c" by blast
  let ?D = "daysBeforeYear y"
  have "?D = 365 * y + (25 * c + k) - c"
    unfolding daysBeforeYear_def d4 d100 by simp
  also have "\<dots> = 36524 * c + 1461 * k + 365 * j"
    by (simp add: y)
  finally have D: "?D = 36524 * c + 1461 * k + 365 * j" .
  have pos: "1 \<le> 24 * c + k + 365 * j" using assms(1) b y by linarith
  have "?D - 1 = 1460 * (25 * c + k) + (24 * c + k + 365 * j - 1)" unfolding D by simp
  then have q1: "(?D - 1) div 1460 = 25 * c + k" by (rule int_div_pos_eq) (use b pos in linarith)+
  have "?D = 36524 * c + (1461 * k + 365 * j)" unfolding D by simp
  then have "?D div 36524 = c" by (rule int_div_pos_eq) (use b in linarith)+
  moreover have "(?D - 1) div 36524 \<le> ?D div 36524" by (rule zdiv_mono1) simp_all
  ultimately have q2: "(?D - 1) div 36524 \<le> c" by simp
  have "0 \<le> ?D - 1" "?D - 1 < 146096" unfolding D using b pos by linarith+
  then have q3: "(?D - 1) div 146096 = 0" by simp
  have "leapAdjusted (?D - 1) \<le> ?D - 1 - (25 * c + k) + c"
    using q2 by (simp add: leapAdjusted_def q1 q3)
  also have "\<dots> = 365 * y - 1" unfolding D by (simp add: y)
  finally show ?thesis by simp
qed

lemma yearOfEra_range:
  assumes "0 \<le> doe" "doe \<le> 146096"
  shows "0 \<le> yearOfEra doe \<and> yearOfEra doe \<le> 399"
proof -
  have "leapAdjusted 0 \<le> leapAdjusted doe" using assms by (intro leapAdjusted_mono) simp_all
  then have lo: "0 \<le> leapAdjusted doe" by (simp add: leapAdjusted_def)
  have "leapAdjusted doe \<le> leapAdjusted 146096" using assms by (intro leapAdjusted_mono) simp_all
  then have hi: "leapAdjusted doe \<le> 145999" by (simp add: leapAdjusted_def)
  from lo have "0 \<le> yearOfEra doe" by (simp add: yearOfEra_def pos_imp_zdiv_nonneg_iff)
  moreover have "yearOfEra doe \<le> 399"
    using div_bounds(1)[of 365 "leapAdjusted doe"] hi unfolding yearOfEra_def by linarith
  ultimately show ?thesis by simp
qed

lemma dayOfYear_range:
  assumes "0 \<le> doe" "doe \<le> 146096"
  shows "0 \<le> dayOfYear doe \<and> dayOfYear doe \<le> 365"
proof -
  let ?y = "yearOfEra doe"
  from yearOfEra_range[OF assms] have yr: "0 \<le> ?y" "?y \<le> 399" by simp_all
  have fy: "365 * ?y \<le> leapAdjusted doe" "leapAdjusted doe < 365 * ?y + 365"
    unfolding yearOfEra_def using div_bounds[of 365 "leapAdjusted doe"] by simp_all
  have lo: "daysBeforeYear ?y \<le> doe"
  proof (rule ccontr)
    assume "\<not> daysBeforeYear ?y \<le> doe"
    then have lt: "doe \<le> daysBeforeYear ?y - 1" by simp
    have y1: "1 \<le> ?y"
    proof (rule ccontr)
      assume "\<not> 1 \<le> ?y"
      with yr have "?y = 0" by simp
      with lt assms show False by (simp add: daysBeforeYear_def)
    qed
    have "daysBeforeYear ?y \<le> 146096"
      using yr unfolding daysBeforeYear_def
      using div_bounds[of 4 ?y] div_bounds[of 100 ?y] by linarith
    then have "leapAdjusted doe \<le> leapAdjusted (daysBeforeYear ?y - 1)"
      using assms lt by (intro leapAdjusted_mono) simp_all
    also have "\<dots> < 365 * ?y" using y1 yr by (intro leapAdjusted_before_year_start) simp_all
    finally show False using fy by simp
  qed
  have hi: "doe \<le> daysBeforeYear ?y + 365"
  proof (cases "?y = 399")
    case True
    then show ?thesis using assms by (simp add: daysBeforeYear_def)
  next
    case False
    with yr have y2: "0 \<le> ?y + 1" "?y + 1 \<le> 399" by simp_all
    have "(?y + 1) div 4 \<le> ?y div 4 + 1"
      using div_bounds[of 4 ?y] div_bounds[of 4 "?y + 1"] by linarith
    moreover have "?y div 100 \<le> (?y + 1) div 100" by (rule zdiv_mono1) simp_all
    moreover have "365 * (?y + 1) + a' - b' \<le> 365 * ?y + a - b + 366"
      if "a' \<le> a + 1" "b \<le> b'" for a a' b b' :: int
      using that by simp
    ultimately have nxt: "daysBeforeYear (?y + 1) \<le> daysBeforeYear ?y + 366"
      unfolding daysBeforeYear_def by blast
    have "doe < daysBeforeYear (?y + 1)"
    proof (rule ccontr)
      assume "\<not> doe < daysBeforeYear (?y + 1)"
      then have ge: "daysBeforeYear (?y + 1) \<le> doe" by simp
      have "(?y + 1) div 100 \<le> ?y + 1"
        using y2 div_bounds[of 100 "?y + 1"] by linarith
      moreover have "0 \<le> (?y + 1) div 4"
        using y2 by (simp add: pos_imp_zdiv_nonneg_iff)
      ultimately have "0 \<le> daysBeforeYear (?y + 1)"
        unfolding daysBeforeYear_def using y2 by simp
      then have "leapAdjusted (daysBeforeYear (?y + 1)) \<le> leapAdjusted doe"
        using ge assms by (intro leapAdjusted_mono) simp_all
      then have "365 * (?y + 1) \<le> leapAdjusted doe"
        using leapAdjusted_year_start[OF y2] by simp
      with fy show False by simp
    qed
    with nxt show ?thesis by simp
  qed
  from lo hi show ?thesis by (simp add: dayOfYear_def)
qed

lemma monthIndex_range:
  assumes "0 \<le> doy" "doy \<le> 365"
  shows "0 \<le> monthIndex doy \<and> monthIndex doy \<le> 11"
  using assms div_bounds[of 153 "5 * doy + 2"] unfolding monthIndex_def by linarith

lemma monthOf_range:
  assumes "0 \<le> doy" "doy \<le> 365"
  shows "1 \<le> monthOf doy \<and> monthOf doy \<le> 12"
  using monthIndex_range[OF assms] by (simp add: monthOf_def)

lemma dayOfMonth_range:
  shows "1 \<le> dayOfMonth doy \<and> dayOfMonth doy \<le> 31"
proof -
  let ?mp = "monthIndex doy"
  let ?s = "(153 * ?mp + 2) div 5"
  have a: "153 * ?mp \<le> 5 * doy + 2" "5 * doy + 2 < 153 * ?mp + 153"
    unfolding monthIndex_def using div_bounds[of 153 "5 * doy + 2"] by simp_all
  have b: "5 * ?s \<le> 153 * ?mp + 2" "153 * ?mp + 2 < 5 * ?s + 5"
    using div_bounds[of 5 "153 * ?mp + 2"] by simp_all
  from a b have "?s \<le> doy" "doy - ?s \<le> 30" by linarith+
  then show ?thesis by (simp add: dayOfMonth_def)
qed

lemma monthIndex_of_month:
  assumes "0 \<le> doy" "doy \<le> 365"
  shows "monthIndex doy = (if 3 \<le> monthOf doy then monthOf doy - 3 else monthOf doy + 9)"
  using monthIndex_range[OF assms] by (simp add: monthOf_def)

lemma dayOfYear_of_month_day:
  "doy = dayOfMonth doy - 1 + (153 * monthIndex doy + 2) div 5"
  by (simp add: dayOfMonth_def)

lemma civilFromDays_inj:
  assumes "civilFromDays z = civilFromDays z'"
  shows "z = z'"
proof -
  let ?a = "z + 719468" and ?a' = "z' + 719468"
  let ?doe = "?a mod 146097" and ?doe' = "?a' mod 146097"
  let ?era = "?a div 146097" and ?era' = "?a' div 146097"
  have r: "0 \<le> ?doe" "?doe \<le> 146096" "0 \<le> ?doe'" "?doe' \<le> 146096"
    using pos_mod_bound[of 146097 ?a] pos_mod_bound[of 146097 ?a'] by simp_all
  note yr = yearOfEra_range[OF r(1,2)] and yr' = yearOfEra_range[OF r(3,4)]
  note dr = dayOfYear_range[OF r(1,2)] and dr' = dayOfYear_range[OF r(3,4)]
  note all3 = assms [unfolded civilFromDays_def prod.inject]
  note y = all3 [THEN conjunct1]
  note m = all3 [THEN conjunct2, THEN conjunct1]
  note d = all3 [THEN conjunct2, THEN conjunct2]
  have mp: "monthIndex (dayOfYear ?doe) = monthIndex (dayOfYear ?doe')"
    using monthIndex_of_month dr dr' m by simp
  have doy: "dayOfYear ?doe = dayOfYear ?doe'"
    using dayOfYear_of_month_day[of "dayOfYear ?doe"] dayOfYear_of_month_day[of "dayOfYear ?doe'"] mp d
    by simp
  have ye: "yearOfEra ?doe + ?era * 400 = yearOfEra ?doe' + ?era' * 400"
    using y unfolding m by simp
  have "yearOfEra ?doe + ?era * 400 = 400 * ?era + yearOfEra ?doe" by simp
  then have e1: "(yearOfEra ?doe + ?era * 400) div 400 = ?era"
    by (rule int_div_pos_eq) (use yr in linarith)+
  have "yearOfEra ?doe' + ?era' * 400 = 400 * ?era' + yearOfEra ?doe'" by simp
  then have e2: "(yearOfEra ?doe' + ?era' * 400) div 400 = ?era'"
    by (rule int_div_pos_eq) (use yr' in linarith)+
  from e1 e2 ye have era: "?era = ?era'" by simp
  with ye have yoe: "yearOfEra ?doe = yearOfEra ?doe'" by simp
  have "?doe = dayOfYear ?doe + daysBeforeYear (yearOfEra ?doe)" by (simp add: dayOfYear_def)
  also have "\<dots> = dayOfYear ?doe' + daysBeforeYear (yearOfEra ?doe')" using doy yoe by simp
  also have "\<dots> = ?doe'" by (simp add: dayOfYear_def)
  finally have doe: "?doe = ?doe'" .
  have "?a = 146097 * ?era + ?doe" by simp
  also have "\<dots> = 146097 * ?era' + ?doe'" using era doe by simp
  also have "\<dots> = ?a'" by simp
  finally show ?thesis by simp
qed

lemma digitChar_inj: "digitChar a = digitChar b \<Longrightarrow> a mod 10 = b mod 10"
proof -
  assume e: "digitChar a = digitChar b"
  have d: "distinct ''0123456789''" by simp
  have "nat (a mod 10) < length ''0123456789''" "nat (b mod 10) < length ''0123456789''" by simp_all
  with d e have "nat (a mod 10) = nat (b mod 10)"
    unfolding digitChar_def by (simp only: nth_eq_iff_index_eq)
  then show ?thesis by simp
qed

lemma pad2_inj:
  assumes "pad2 a = pad2 b" "0 \<le> a" "a \<le> 99" "0 \<le> b" "b \<le> 99"
  shows "a = b"
proof -
  from assms(1) have "a div 10 mod 10 = b div 10 mod 10" "a mod 10 = b mod 10"
    by (auto simp: pad2_def dest: digitChar_inj)
  moreover have "a div 10 mod 10 = a div 10" "b div 10 mod 10 = b div 10"
    using assms by simp_all
  moreover have "a = 10 * (a div 10) + a mod 10" "b = 10 * (b div 10) + b mod 10" by simp_all
  ultimately show ?thesis by simp
qed

lemma pad4_inj:
  assumes "pad4 a = pad4 b" "0 \<le> a" "a \<le> 9999" "0 \<le> b" "b \<le> 9999"
  shows "a = b"
proof -
  from assms(1) have e: "a div 1000 mod 10 = b div 1000 mod 10" "a div 100 mod 10 = b div 100 mod 10"
    "a div 10 mod 10 = b div 10 mod 10" "a mod 10 = b mod 10"
    by (auto simp: pad4_def dest: digitChar_inj)
  have s: "x = 1000 * (x div 1000 mod 10) + 100 * (x div 100 mod 10) + 10 * (x div 10 mod 10) + x mod 10"
    if "0 \<le> x" "x \<le> 9999" for x :: int
  proof -
    define q1 q2 q3 where "q1 = x div 10" and "q2 = x div 100" and "q3 = x div 1000"
    define d0 d1 d2 d3 where "d0 = x mod 10" and "d1 = q1 mod 10" and "d2 = q2 mod 10"
      and "d3 = q3 mod 10"
    have "q3 mod 10 = q3" using that by (simp add: q3_def)
    then have a3: "d3 = q3" by (simp add: d3_def)
    have "q2 div 10 = q3" "q1 div 10 = q2"
      using zdiv_zmult2_eq[of 10 x 100] zdiv_zmult2_eq[of 10 x 10] by (simp_all add: q1_def q2_def q3_def)
    then have a2: "q2 = 10 * q3 + d2" and a1: "q1 = 10 * q2 + d1"
      using div_mult_mod_eq[of q2 10] div_mult_mod_eq[of q1 10] by (simp_all add: d1_def d2_def)
    have a0: "x = 10 * q1 + d0" by (simp add: q1_def d0_def)
    from a0 a1 a2 a3 have "x = 1000 * d3 + 100 * d2 + 10 * d1 + d0" by simp
    then show ?thesis unfolding d0_def d1_def d2_def d3_def q1_def q2_def q3_def .
  qed
  have "a = 1000 * (a div 1000 mod 10) + 100 * (a div 100 mod 10) + 10 * (a div 10 mod 10) + a mod 10"
    by (rule s[OF assms(2,3)])
  also have "\<dots> = 1000 * (b div 1000 mod 10) + 100 * (b div 100 mod 10) + 10 * (b div 10 mod 10) + b mod 10"
    by (simp only: e)
  also have "\<dots> = b" by (rule s[OF assms(4,5), symmetric])
  finally show ?thesis .
qed

lemma yearOfEra_mono:
  assumes "0 \<le> n" "n \<le> m" "m \<le> 146096"
  shows "yearOfEra n \<le> yearOfEra m"
  unfolding yearOfEra_def using leapAdjusted_mono[OF assms] by (rule zdiv_mono1) simp

lemma Day_range:
  assumes "fourDigitYear t"
  shows "0 \<le> Day t \<and> Day t \<le> 2932896"
proof -
  from assms have t: "0 \<le> t" "t < 253402300800000" by (simp_all add: fourDigitYear_def)
  have "0 \<le> Day t" using t by (simp add: Day_def msPerDay_def pos_imp_zdiv_nonneg_iff)
  moreover have "Day t \<le> 2932896"
    using div_bounds(1)[of 86400000 t] t unfolding Day_def msPerDay_def by linarith
  ultimately show ?thesis by simp
qed

lemma civil_year_range:
  assumes "0 \<le> z" "z \<le> 2932896"
  shows "1970 \<le> fst (civilFromDays z) \<and> fst (civilFromDays z) \<le> 9999"
proof -
  let ?a = "z + 719468"
  let ?doe = "?a mod 146097" and ?era = "?a div 146097"
  let ?doy = "dayOfYear ?doe"
  let ?adj = "(if monthOf ?doy \<le> 2 then 1 else 0) :: int"
  have r: "0 \<le> ?doe" "?doe \<le> 146096"
    using pos_mod_bound[of 146097 ?a] by simp_all
  note yr = yearOfEra_range[OF r] and dr = dayOfYear_range[OF r]
  from dr have "0 \<le> ?doy" "?doy \<le> 365" by simp_all
  note mr = monthIndex_range[OF this]
  have a: "?a = 146097 * ?era + ?doe" by simp
  have eb: "4 \<le> ?era" "?era \<le> 24"
    using div_bounds[of 146097 ?a] assms by linarith+
  have y: "fst (civilFromDays z) = yearOfEra ?doe + ?era * 400 + ?adj"
    by (simp add: civilFromDays_def)
  have adj: "0 \<le> ?adj" "?adj \<le> 1" by simp_all
  have hi: "yearOfEra ?doe + ?era * 400 + ?adj \<le> 9999"
  proof (cases "?era = 24 \<and> yearOfEra ?doe = 399")
    case True
    then have "?doe \<le> 146036" using a assms by linarith
    then have "?doy \<le> 305" using True by (simp add: dayOfYear_def daysBeforeYear_def)
    then have "monthIndex ?doy \<le> 9"
      using div_bounds(1)[of 153 "5 * ?doy + 2"] unfolding monthIndex_def by linarith
    with mr have "?adj = 0" by (simp add: monthOf_def)
    with True show ?thesis by simp
  next
    case False
    with eb yr adj show ?thesis by linarith
  qed
  have lo: "1970 \<le> yearOfEra ?doe + ?era * 400 + ?adj"
  proof (cases "?era = 4")
    case True
    then have d: "135080 \<le> ?doe" using a assms by linarith
    have "yearOfEra 135080 = 369" by (simp add: yearOfEra_def leapAdjusted_def)
    moreover have "yearOfEra 135080 \<le> yearOfEra ?doe" using d r by (intro yearOfEra_mono) simp_all
    ultimately have y369: "369 \<le> yearOfEra ?doe" by (simp only:)
    show ?thesis
    proof (cases "yearOfEra ?doe = 369")
      case y: True
      then have "306 \<le> ?doy" using d by (simp add: dayOfYear_def daysBeforeYear_def)
      then have "10 \<le> monthIndex ?doy"
        using div_bounds(2)[of 153 "5 * ?doy + 2"] unfolding monthIndex_def by linarith
      with mr have "?adj = 1" by (simp add: monthOf_def)
      with True y show ?thesis by simp
    next
      case False
      with y369 True adj show ?thesis by linarith
    qed
  next
    case False
    with eb yr adj show ?thesis by linarith
  qed
  from lo hi show ?thesis unfolding y by simp
qed

lemma civil_fields:
  "1 \<le> fst (snd (civilFromDays z)) \<and> fst (snd (civilFromDays z)) \<le> 12 \<and>
   1 \<le> snd (snd (civilFromDays z)) \<and> snd (snd (civilFromDays z)) \<le> 31"
proof -
  let ?doe = "(z + 719468) mod 146097"
  have r: "0 \<le> ?doe" "?doe \<le> 146096"
    using pos_mod_bound[of 146097 "z + 719468"] by simp_all
  from dayOfYear_range[OF r] have "0 \<le> dayOfYear ?doe" "dayOfYear ?doe \<le> 365" by simp_all
  from monthOf_range[OF this] dayOfMonth_range[of "dayOfYear ?doe"]
  show ?thesis by (simp add: civilFromDays_def)
qed

lemma isoDate_plain:
  assumes "0 \<le> z" "z \<le> 2932896"
  shows "isoDate z = pad4 (fst (civilFromDays z)) @ ''-'' @ pad2 (fst (snd (civilFromDays z))) @
           ''-'' @ pad2 (snd (snd (civilFromDays z)))"
proof -
  obtain y m d where c: "civilFromDays z = (y, m, d)" by (cases "civilFromDays z") auto
  with civil_year_range[OF assms] have "0 \<le> y" "y \<le> 9999" by simp_all
  then show ?thesis by (simp add: isoDate_def isoYear_def c)
qed

lemma isoDate_inj:
  assumes "isoDate z = isoDate z'" "0 \<le> z" "z \<le> 2932896" "0 \<le> z'" "z' \<le> 2932896"
  shows "z = z'"
proof -
  obtain y m d where c: "civilFromDays z = (y, m, d)" by (cases "civilFromDays z") auto
  obtain y' m' d' where c': "civilFromDays z' = (y', m', d')" by (cases "civilFromDays z'") auto
  from assms(1) have e: "pad4 y @ ''-'' @ pad2 m @ ''-'' @ pad2 d = pad4 y' @ ''-'' @ pad2 m' @ ''-'' @ pad2 d'"
    unfolding isoDate_plain[OF assms(2,3)] isoDate_plain[OF assms(4,5)] c c' by simp
  then have p: "pad4 y = pad4 y'" "pad2 m = pad2 m'" "pad2 d = pad2 d'"
    by (simp_all add: pad4_def pad2_def)
  from civil_year_range[OF assms(2,3)] civil_year_range[OF assms(4,5)]
  have yb: "0 \<le> y" "y \<le> 9999" "0 \<le> y'" "y' \<le> 9999" by (simp_all add: c c')
  from civil_fields[of z] civil_fields[of z']
  have mb: "0 \<le> m" "m \<le> 99" "0 \<le> m'" "m' \<le> 99" and db: "0 \<le> d" "d \<le> 99" "0 \<le> d'" "d' \<le> 99"
    by (simp_all add: c c')
  have "y = y'" using p(1) yb by (rule pad4_inj)
  moreover have "m = m'" using p(2) mb by (rule pad2_inj)
  moreover have "d = d'" using p(3) db by (rule pad2_inj)
  ultimately have "civilFromDays z = civilFromDays z'" by (simp add: c c')
  then show ?thesis by (rule civilFromDays_inj)
qed

text \<open>
  C5, amended: the DayKey is the calendar date of the time value in UTC: the date part of
  its ISO-8601 text, a function of the number of whole days since the epoch. It is the same
  from one UTC midnight to the next (it equals the DayKey of the preceding UTC midnight)
  and does not depend on the server's time zone. From 1970 to the end of the year 9999,
  two time values have the same DayKey exactly when they lie in the same UTC day, and the
  DayKey has the form YYYY-MM-DD, ten characters, with the year from 1970 to 9999, the
  month from 1 to 12 and the day from 1 to 31.
\<close>

theorem C5_daykey_is_utc_date:
  "getTodayString t = isoDate (Day t) \<and>
   getTodayString t = getTodayString (t - t mod msPerDay) \<and>
   (Day t = Day t' \<longrightarrow> getTodayString t = getTodayString t') \<and>
   (fourDigitYear t \<and> fourDigitYear t' \<and> getTodayString t = getTodayString t' \<longrightarrow>
      Day t = Day t') \<and>
   (fourDigitYear t \<longrightarrow>
      (case civilFromDays (Day t) of
         (y, m, d) \<Rightarrow>
           1970 \<le> y \<and> y \<le> 9999 \<and> 1 \<le> m \<and> m \<le> 12 \<and> 1 \<le> d \<and> d \<le> 31 \<and>
           getTodayString t = pad4 y @ ''-'' @ pad2 m @ ''-'' @ pad2 d \<and>
           length (getTodayString t) = 10))"
proof (intro conjI impI)
  show "getTodayString t = isoDate (Day t)" by (rule getTodayString_isoDate)
  show "getTodayString t = getTodayString (t - t mod msPerDay)"
    by (simp add: getTodayString_isoDate Day_midnight)
  show "getTodayString t = getTodayString t'" if "Day t = Day t'"
    using that by (simp add: getTodayString_isoDate)
  show "Day t = Day t'"
    if h: "fourDigitYear t \<and> fourDigitYear t' \<and> getTodayString t = getTodayString t'"
  proof -
    from h have e: "isoDate (Day t) = isoDate (Day t')" by (simp add: getTodayString_isoDate)
    from h Day_range[of t] Day_range[of t']
    have "0 \<le> Day t" "Day t \<le> 2932896" "0 \<le> Day t'" "Day t' \<le> 2932896" by simp_all
    with e show ?thesis by (rule isoDate_inj)
  qed
  show "case civilFromDays (Day t) of
         (y, m, d) \<Rightarrow>
           1970 \<le> y \<and> y \<le> 9999 \<and> 1 \<le> m \<and> m \<le> 12 \<and> 1 \<le> d \<and> d \<le> 31 \<and>
           getTodayString t = pad4 y @ ''-'' @ pad2 m @ ''-'' @ pad2 d \<and>
           length (getTodayString t) = 10"
    if h: "fourDigitYear t"
  proof -
    obtain y m d where c: "civilFromDays (Day t) = (y, m, d)"
      by (cases "civilFromDays (Day t)") auto
    from Day_range[OF h] have r: "0 \<le> Day t" "Day t \<le> 2932896" by simp_all
    from civil_year_range[OF r] have yb: "1970 \<le> y" "y \<le> 9999" by (simp_all add: c)
    from civil_fields[of "Day t"] have fb: "1 \<le> m" "m \<le> 12" "1 \<le> d" "d \<le> 31"
      by (simp_all add: c)
    have s: "getTodayString t = pad4 y @ ''-'' @ pad2 m @ ''-'' @ pad2 d"
      unfolding getTodayString_isoDate isoDate_plain[OF r] c by simp
    then have "length (getTodayString t) = 10" by (simp add: pad4_def pad2_def)
    with yb fb s show ?thesis by (simp add: c)
  qed
qed

text \<open>
  C5, as stated: the DayKey is the calendar date in the server's local time zone. On a
  server eight hours east of Greenwich, at 20:00 UTC on 1 January 2024 the local date is
  2 January, and the DayKey is 2024-01-01.
\<close>

theorem C5_local_date_counterexample:
  "getTodayString demoNow = ''2024-01-01'' \<and> localDayKey 480 demoNow = ''2024-01-02''"
  by (simp add: demoNow_def date_eval)

theorem C5_daykey_is_utc_date_witness:
  "Day demoNow = Day 1704153599999 \<and>
   fourDigitYear demoNow \<and> fourDigitYear 1704153599999 \<and>
   getTodayString 1704153599999 = getTodayString demoNow \<and>
   civilFromDays (Day demoNow) = (2024, 1, 1) \<and>
   getTodayString demoNow = pad4 2024 @ ''-'' @ pad2 1 @ ''-'' @ pad2 1 \<and>
   getTodayString demoNow = ''2024-01-01'' \<and>
   getTodayString 1704153600000 = ''2024-01-02''"
proof -
  have d: "Day demoNow = Day 1704153599999" by (simp add: Day_def msPerDay_def demoNow_def)
  have r: "fourDigitYear demoNow" "fourDigitYear 1704153599999"
    by (simp_all add: fourDigitYear_def demoNow_def)
  have c: "civilFromDays (Day demoNow) = (2024, 1, 1)" by (simp add: demoNow_def date_eval)
  have n: "getTodayString 1704153600000 = ''2024-01-02''" by (simp add: date_eval)
  note inst = C5_daykey_is_utc_date [of demoNow 1704153599999]
  note same = inst [THEN conjunct2, THEN conjunct2, THEN conjunct1]
  note apart = inst [THEN conjunct2, THEN conjunct2, THEN conjunct2, THEN conjunct1]
  note shape = inst [THEN conjunct2, THEN conjunct2, THEN conjunct2, THEN conjunct2]
  from same d have s: "getTodayString 1704153599999 = getTodayString demoNow" by simp
  from apart r s have "Day demoNow = Day 1704153599999" by simp
  moreover from shape r(1) have f: "getTodayString demoNow = pad4 2024 @ ''-'' @ pad2 1 @ ''-'' @ pad2 1"
    unfolding c by simp
  ultimately show ?thesis using r s c n demoToday by blast
qed

end
